theory Spec2Isabelle
  imports Complex_Main
begin

section \<open>Timeouts and cancel contexts of \<^verbatim>\<open>prefect._internal.concurrency.timeouts\<close>\<close>

text \<open>
  The module is embedded as follows.
  \<^item> Python floats (timeouts, deadlines, readings of \<^verbatim>\<open>time.monotonic()\<close>) are real
    numbers; every reading of the clock is an argument of the function that reads it.
  \<^item> \<^verbatim>\<open>CancelContext\<close> objects live in a store indexed by references of a finite type:
    finitely many contexts exist, and chained lists hold references, so that a child
    marked through its parent is the same object the caller inspects.
  \<^item> \<^verbatim>\<open>threading.Lock\<close> is not reentrant. One thread of control is modelled; the set
    of locks it holds is an argument of the recursive marking, and acquiring a lock
    of that set never returns: the outcome \<open>Blocked\<close>, together with the store as it
    is at that moment.
  \<^item> Exceptions are values of the datatype \<open>exn\<close>.
  \<^item> The signal handler, the interval timer and the watcher threads are fields of a
    record of the process state, passed through the enforcers.
\<close>

subsection \<open>Outcomes and exceptions\<close>

datatype 'a outcome = Returned 'a | Blocked

datatype exn = TimeoutError | CancelledError | ValueError | TypeError

subsection \<open>Clock\<close>

text \<open>\<^verbatim>\<open>get_deadline(timeout)\<close>; \<open>now\<close> is the reading of the monotonic clock.\<close>

definition get_deadline :: "real \<Rightarrow> real option \<Rightarrow> real option" where
  "get_deadline now timeout =
     (case timeout of None \<Rightarrow> None | Some t \<Rightarrow> Some (now + t))"

subsection \<open>CancelContext\<close>

text \<open>
  The callbacks the module passes as \<^verbatim>\<open>cancel\<close>: none (the default \<^verbatim>\<open>None\<close>),
  \<^verbatim>\<open>scope.cancel\<close>, \<^verbatim>\<open>lambda: signal.raise_signal(signal.SIGALRM)\<close>,
  \<^verbatim>\<open>lambda: _send_exception_to_thread(supervised_thread, CancelledError)\<close> and
  \<^verbatim>\<open>lambda: None\<close>.
\<close>

datatype cancel_fn = NoCancelFn | ScopeCancel | RaiseSigalrm | SendCancelledError | DoNothing

record 'r CancelContext =
  ctx_timeout :: "real option"
  ctx_deadline :: "real option"
  ctx_cancelled :: bool
  ctx_chained :: "'r list"
  ctx_completed :: bool
  ctx_cancel :: cancel_fn

type_synonym 'r store = "'r \<Rightarrow> 'r CancelContext"

text \<open>\<^verbatim>\<open>CancelContext.__init__\<close>; the clock is read by \<^verbatim>\<open>get_deadline\<close>.\<close>

definition CancelContext_init :: "real \<Rightarrow> real option \<Rightarrow> cancel_fn \<Rightarrow> 'r CancelContext" where
  "CancelContext_init now timeout cancel =
     \<lparr>ctx_timeout = timeout, ctx_deadline = get_deadline now timeout,
      ctx_cancelled = False, ctx_chained = [], ctx_completed = False,
      ctx_cancel = cancel\<rparr>"

definition cancelled :: "'r store \<Rightarrow> 'r \<Rightarrow> bool" where
  "cancelled h r = ctx_cancelled (h r)"

definition completed :: "'r store \<Rightarrow> 'r \<Rightarrow> bool" where
  "completed h r = ctx_completed (h r)"

text \<open>
  \<^verbatim>\<open>mark_cancelled\<close> run by a thread that holds the locks \<open>L\<close>, and its loop over
  \<^verbatim>\<open>self._chained\<close>. The lock of \<open>r\<close> is held during the loop. A call that blocks
  inside the loop leaves the caller blocked too.
\<close>

function mark_cancelled_locked ::
    "'r::finite set \<Rightarrow> 'r store \<Rightarrow> 'r \<Rightarrow> bool outcome \<times> 'r store"
  and cascade ::
    "'r::finite set \<Rightarrow> 'r store \<Rightarrow> 'r list \<Rightarrow> unit outcome \<times> 'r store" where
  "mark_cancelled_locked L h r =
     (if r \<in> L then (Blocked, h)
      else if ctx_completed (h r) then (Returned False, h)
      else (case cascade (insert r L) (h(r := (h r)\<lparr>ctx_cancelled := True\<rparr>))
                   (ctx_chained (h r)) of
              (Returned u, h') \<Rightarrow> (Returned True, h')
            | (Blocked, h') \<Rightarrow> (Blocked, h')))"
| "cascade L h [] = (Returned (), h)"
| "cascade L h (c # cs) =
     (case mark_cancelled_locked L h c of
        (Returned b, h') \<Rightarrow> cascade L h' cs
      | (Blocked, h') \<Rightarrow> (Blocked, h'))"
  by pat_completeness auto
termination
proof (relation "inv_image (less_than <*lex*> less_than)
           (\<lambda>x. case x of Inl (L, h, r) \<Rightarrow> (card (- L), 0)
                         | Inr (L, h, cs) \<Rightarrow> (card (- L), Suc (length cs)))", goal_cases)
  case 1
  show ?case by auto
next
  case (2 L h r)
  have "r \<in> - L" using 2 by simp
  then have "card (- L - {r}) < card (- L)"
    by (intro card_Diff1_less) simp_all
  then show ?case by (simp add: Compl_insert)
next
  case 3
  show ?case by simp
next
  case 4
  show ?case by simp
qed

declare mark_cancelled_locked.simps [simp del]

definition mark_cancelled :: "'r::finite store \<Rightarrow> 'r \<Rightarrow> bool outcome \<times> 'r store" where
  "mark_cancelled h r = mark_cancelled_locked {} h r"

definition mark_completed :: "'r store \<Rightarrow> 'r \<Rightarrow> bool \<times> 'r store" where
  "mark_completed h r =
     (if ctx_cancelled (h r) then (False, h)
      else (True, h(r := (h r)\<lparr>ctx_completed := True\<rparr>)))"

text \<open>\<^verbatim>\<open>chain\<close> holds the lock of \<open>r\<close> while it marks \<open>c\<close>.\<close>

definition chain :: "'r::finite store \<Rightarrow> 'r \<Rightarrow> 'r \<Rightarrow> unit outcome \<times> 'r store" where
  "chain h r c =
     (if ctx_cancelled (h r) then
        (case mark_cancelled_locked {r} h c of
           (Returned b, h') \<Rightarrow> (Returned (), h')
         | (Blocked, h') \<Rightarrow> (Blocked, h'))
      else (Returned (), h(r := (h r)\<lparr>ctx_chained := ctx_chained (h r) @ [c]\<rparr>)))"

text \<open>
  \<^verbatim>\<open>cancel\<close>: the callback runs after the lock is released. Its body belongs to the
  enforcer; the result records which callback was called (\<open>Inr (Some f)\<close>), that none
  was (\<open>Inr None\<close>, the method returns \<^verbatim>\<open>None\<close>), or the \<^verbatim>\<open>TypeError\<close> of calling the
  default \<^verbatim>\<open>None\<close>.
\<close>

definition cancel ::
    "'r::finite store \<Rightarrow> 'r \<Rightarrow> (exn + cancel_fn option) outcome \<times> 'r store" where
  "cancel h r =
     (case mark_cancelled h r of
        (Returned b, h') \<Rightarrow>
          (if b then
             (if ctx_cancel (h' r) = NoCancelFn then (Returned (Inl TypeError), h')
              else (Returned (Inr (Some (ctx_cancel (h' r)))), h'))
           else (Returned (Inr None), h'))
      | (Blocked, h') \<Rightarrow> (Blocked, h'))"

subsection \<open>Sequences of operations on contexts\<close>

datatype 'r op = MarkCancelled 'r | MarkCompleted 'r | Cancel 'r | Chain 'r 'r

fun step :: "'r::finite store \<Rightarrow> 'r op \<Rightarrow> unit outcome \<times> 'r store" where
  "step h (MarkCancelled r) =
     (case mark_cancelled h r of
        (Returned b, h') \<Rightarrow> (Returned (), h') | (Blocked, h') \<Rightarrow> (Blocked, h'))"
| "step h (MarkCompleted r) = (Returned (), snd (mark_completed h r))"
| "step h (Cancel r) =
     (case cancel h r of
        (Returned b, h') \<Rightarrow> (Returned (), h') | (Blocked, h') \<Rightarrow> (Blocked, h'))"
| "step h (Chain r c) = chain h r c"

text \<open>A blocked operation never returns: the operations after it do not run.\<close>

fun run :: "'r::finite store \<Rightarrow> 'r op list \<Rightarrow> unit outcome \<times> 'r store" where
  "run h [] = (Returned (), h)"
| "run h (x # xs) =
     (case step h x of
        (Returned u, h') \<Rightarrow> run h' xs
      | (Blocked, h') \<Rightarrow> (Blocked, h'))"

subsection \<open>Cooperative enforcer\<close>

text \<open>\<^verbatim>\<open>anyio.CancelScope\<close>, as far as the module reads and sets it.\<close>

datatype scope_deadline = At real | Inf

record CancelScope =
  scope_deadline :: scope_deadline
  cancel_called :: bool

text \<open>Truth value of an optional float: \<^verbatim>\<open>None\<close> and \<^verbatim>\<open>0.0\<close> are false.\<close>

definition truthy :: "real option \<Rightarrow> bool" where
  "truthy d = (case d of None \<Rightarrow> False | Some x \<Rightarrow> x \<noteq> 0)"

text \<open>
  \<^verbatim>\<open>cancel_async_at\<close> up to its \<^verbatim>\<open>yield\<close>: \<open>now0\<close> is the clock read for the timeout,
  \<open>now1\<close> the clock read by the constructor of the context.
\<close>

definition cancel_async_at_enter ::
    "real \<Rightarrow> real \<Rightarrow> real option \<Rightarrow> CancelScope \<times> 'r CancelContext" where
  "cancel_async_at_enter now0 now1 deadline =
     (let timeout = (if truthy deadline then Some (max 0 (the deadline - now0)) else None);
          scope = \<lparr>scope_deadline = (case deadline of Some d \<Rightarrow> At d | None \<Rightarrow> Inf),
                   cancel_called = False\<rparr>
      in (scope, CancelContext_init now1 timeout ScopeCancel))"

text \<open>
  The \<^verbatim>\<open>finally\<close> block of \<^verbatim>\<open>cancel_async_at\<close>: \<open>Returned (Some e)\<close> raises \<open>e\<close>,
  \<open>Returned None\<close> leaves the block normally. \<open>now\<close> is the clock read while the
  exception is built.
\<close>

definition cancel_async_at_exit ::
    "real option \<Rightarrow> CancelScope \<Rightarrow> real \<Rightarrow> 'r::finite store \<Rightarrow> 'r \<Rightarrow>
     exn option outcome \<times> 'r store" where
  "cancel_async_at_exit deadline scope now h ctx =
     (if cancel_called scope then
        (case mark_cancelled h ctx of
           (Returned b, h') \<Rightarrow>
             (Returned (Some (if (case deadline of None \<Rightarrow> False | Some d \<Rightarrow> now \<ge> d)
                              then TimeoutError else CancelledError)), h')
         | (Blocked, h') \<Rightarrow> (Blocked, h'))
      else (Returned None, snd (mark_completed h ctx)))"

text \<open>\<^verbatim>\<open>cancel_async_after\<close> up to its \<^verbatim>\<open>yield\<close>.\<close>

definition cancel_async_after_enter ::
    "real \<Rightarrow> real \<Rightarrow> real \<Rightarrow> real option \<Rightarrow> CancelScope \<times> 'r CancelContext" where
  "cancel_async_after_enter now now0 now1 timeout =
     cancel_async_at_enter now0 now1
       (case timeout of None \<Rightarrow> None | Some t \<Rightarrow> Some (now + t))"

subsection \<open>Process state of the synchronous enforcers\<close>

text \<open>
  The handler of \<^verbatim>\<open>SIGALRM\<close> is the default one or the closure
  \<^verbatim>\<open>raise_alarm_as_timeout\<close> with the \<^verbatim>\<open>timeout\<close> and \<^verbatim>\<open>deadline\<close> it captured.
  \<open>itimer_real\<close> is the pair (delay, interval) of \<^verbatim>\<open>ITIMER_REAL\<close>, \<open>(0, 0)\<close> when
  no timer is armed. \<open>watchers\<close> lists the sleep of each enforcer thread started.
\<close>

datatype sig_handler = SigDefault | RaiseAlarmAsTimeout "real option" "real option"

record proc =
  sigalrm_handler :: sig_handler
  itimer_real :: "real \<times> real"
  watchers :: "real list"

text \<open>
  \<^verbatim>\<open>_alarm_based_timeout\<close> up to its \<^verbatim>\<open>yield\<close>. \<open>is_main\<close> says whether the current
  thread is the main thread; \<open>now0\<close> is the clock read by \<^verbatim>\<open>get_deadline\<close>, \<open>now1\<close>
  the one read by the constructor. The result holds the context and, when a timer
  was set, the previous timer.
\<close>

definition alarm_based_timeout_enter ::
    "bool \<Rightarrow> real \<Rightarrow> real \<Rightarrow> real option \<Rightarrow> proc \<Rightarrow>
     proc \<times> (exn + 'r CancelContext \<times> (real \<times> real) option)" where
  "alarm_based_timeout_enter is_main now0 now1 timeout p =
     (if \<not> is_main then (p, Inl ValueError)
      else
        (let deadline = get_deadline now0 timeout;
             ctx = CancelContext_init now1 timeout RaiseSigalrm;
             p1 = p\<lparr>sigalrm_handler := RaiseAlarmAsTimeout timeout deadline\<rparr>
         in (case timeout of
               None \<Rightarrow> (p1, Inr (ctx, None))
             | Some t \<Rightarrow> (p1\<lparr>itimer_real := (t, 0)\<rparr>, Inr (ctx, Some (itimer_real p1))))))"

text \<open>
  The handler \<^verbatim>\<open>raise_alarm_as_timeout\<close> of the context \<open>ctx\<close>; it always raises.
  \<open>now\<close> is the clock read while the exception is built. Comparing the clock with a
  deadline that is \<^verbatim>\<open>None\<close> would raise \<^verbatim>\<open>TypeError\<close>.
\<close>

definition raise_alarm_as_timeout ::
    "real option \<Rightarrow> real option \<Rightarrow> real \<Rightarrow> 'r::finite store \<Rightarrow> 'r \<Rightarrow>
     exn outcome \<times> 'r store" where
  "raise_alarm_as_timeout timeout deadline now h ctx =
     (case mark_cancelled h ctx of
        (Returned b, h') \<Rightarrow>
          (Returned (case timeout of
                       None \<Rightarrow> CancelledError
                     | Some t \<Rightarrow>
                         (case deadline of
                            None \<Rightarrow> TypeError
                          | Some d \<Rightarrow> if now \<ge> d then TimeoutError else CancelledError)), h')
      | (Blocked, h') \<Rightarrow> (Blocked, h'))"

text \<open>The handler the alarm enforcer installs, fired at time \<open>now\<close>.\<close>

definition fire_sigalrm ::
    "sig_handler \<Rightarrow> real \<Rightarrow> 'r::finite store \<Rightarrow> 'r \<Rightarrow> (exn outcome \<times> 'r store) option" where
  "fire_sigalrm handler now h ctx =
     (case handler of
        SigDefault \<Rightarrow> None
      | RaiseAlarmAsTimeout timeout deadline \<Rightarrow>
          Some (raise_alarm_as_timeout timeout deadline now h ctx))"

text \<open>\<^verbatim>\<open>_watcher_thread_based_timeout\<close> up to its \<^verbatim>\<open>yield\<close>.\<close>

definition watcher_thread_based_timeout_enter ::
    "real \<Rightarrow> real option \<Rightarrow> proc \<Rightarrow> proc \<times> 'r CancelContext" where
  "watcher_thread_based_timeout_enter now1 timeout p =
     (let ctx = CancelContext_init now1 timeout SendCancelledError
      in (case timeout of
            None \<Rightarrow> (p, ctx)
          | Some t \<Rightarrow> (p\<lparr>watchers := watchers p @ [t]\<rparr>, ctx)))"

text \<open>
  \<^verbatim>\<open>cancel_sync_after\<close> up to its \<^verbatim>\<open>yield\<close>: \<open>win\<close> says whether the platform is
  Windows.
\<close>

definition cancel_sync_after_enter ::
    "bool \<Rightarrow> bool \<Rightarrow> real \<Rightarrow> real \<Rightarrow> real option \<Rightarrow> proc \<Rightarrow>
     proc \<times> (exn + 'r CancelContext)" where
  "cancel_sync_after_enter win is_main now0 now1 timeout p =
     (if win then (p, Inr (CancelContext_init now1 None DoNothing))
      else if is_main then
        (case alarm_based_timeout_enter is_main now0 now1 timeout p of
           (p', Inl e) \<Rightarrow> (p', Inl e)
         | (p', Inr (ctx, previous)) \<Rightarrow> (p', Inr ctx))
      else
        (case watcher_thread_based_timeout_enter now1 timeout p of
           (p', ctx) \<Rightarrow> (p', Inr ctx)))"

text \<open>The timeout \<^verbatim>\<open>cancel_sync_at\<close> computes, and the function up to its \<^verbatim>\<open>yield\<close>.\<close>

definition cancel_sync_at_timeout :: "real \<Rightarrow> real option \<Rightarrow> real option" where
  "cancel_sync_at_timeout now deadline =
     (case deadline of None \<Rightarrow> None | Some d \<Rightarrow> Some (max 0 (d - now)))"

definition cancel_sync_at_enter ::
    "bool \<Rightarrow> bool \<Rightarrow> real \<Rightarrow> real \<Rightarrow> real \<Rightarrow> real option \<Rightarrow> proc \<Rightarrow>
     proc \<times> (exn + 'r CancelContext)" where
  "cancel_sync_at_enter win is_main now now0 now1 deadline p =
     cancel_sync_after_enter win is_main now0 now1 (cancel_sync_at_timeout now deadline) p"

subsection \<open>Alarm scopes on the main thread\<close>

text \<open>
  The \<^verbatim>\<open>finally\<close> block of \<^verbatim>\<open>_alarm_based_timeout\<close>: the timer is set back to
  \<open>previous\<close>, which is bound exactly when the timeout is set, and the context is
  marked completed. The handler of \<^verbatim>\<open>SIGALRM\<close> is not touched.
\<close>

definition alarm_based_timeout_exit ::
    "real option \<Rightarrow> (real \<times> real) option \<Rightarrow> 'r store \<Rightarrow> 'r \<Rightarrow> proc \<Rightarrow> proc \<times> 'r store" where
  "alarm_based_timeout_exit timeout previous h ctx p =
     ((case timeout of
         None \<Rightarrow> p
       | Some t \<Rightarrow> (case previous of None \<Rightarrow> p | Some pr \<Rightarrow> p\<lparr>itimer_real := pr\<rparr>)),
      snd (mark_completed h ctx))"

text \<open>
  The local variables of one \<^verbatim>\<open>_alarm_based_timeout\<close> suspended at its \<^verbatim>\<open>yield\<close>;
  \<open>sc_ctx\<close> is the address of its context.
\<close>

record 'r alarm_scope =
  sc_timeout :: "real option"
  sc_deadline :: "real option"
  sc_previous :: "(real \<times> real) option"
  sc_ctx :: 'r

text \<open>
  What the main thread does with alarm scopes: it enters one (clock readings,
  timeout, address of the new context), leaves the innermost open one, or operates
  on contexts inside the open scopes. The state is the process state, the store and
  the open scopes, innermost first.
\<close>

datatype 'r alarm_ev = AlarmEnter real real "real option" 'r | AlarmExit | Body "'r op list"

fun alarm_step ::
    "proc \<times> 'r::finite store \<times> 'r alarm_scope list \<Rightarrow> 'r alarm_ev \<Rightarrow>
     (proc \<times> 'r store \<times> 'r alarm_scope list) option" where
  "alarm_step (p, h, ss) (AlarmEnter now0 now1 timeout r) =
     (case alarm_based_timeout_enter True now0 now1 timeout p of
        (p', Inl e) \<Rightarrow> None
      | (p', Inr (ctx, previous)) \<Rightarrow>
          Some (p', h(r := ctx),
                \<lparr>sc_timeout = timeout, sc_deadline = get_deadline now0 timeout,
                 sc_previous = previous, sc_ctx = r\<rparr> # ss))"
| "alarm_step (p, h, ss) AlarmExit =
     (case ss of
        [] \<Rightarrow> None
      | s # ss' \<Rightarrow>
          (case alarm_based_timeout_exit (sc_timeout s) (sc_previous s) h (sc_ctx s) p of
             (p', h') \<Rightarrow> Some (p', h', ss')))"
| "alarm_step (p, h, ss) (Body ops) =
     (case run h ops of
        (Returned u, h') \<Rightarrow> Some (p, h', ss)
      | (Blocked, h') \<Rightarrow> None)"

fun alarm_run ::
    "proc \<times> 'r::finite store \<times> 'r alarm_scope list \<Rightarrow> 'r alarm_ev list \<Rightarrow>
     (proc \<times> 'r store \<times> 'r alarm_scope list) option" where
  "alarm_run st [] = Some st"
| "alarm_run st (e # es) =
     (case alarm_step st e of None \<Rightarrow> None | Some st' \<Rightarrow> alarm_run st' es)"

subsection \<open>A store of four contexts\<close>

datatype tid = T1 | T2 | T3 | T4

instantiation tid :: finite
begin
instance
proof
  have u: "(UNIV :: tid set) = {T1, T2, T3, T4}"
    by (auto intro: tid.exhaust)
  show "finite (UNIV :: tid set)"
    unfolding u by simp
qed
end

text \<open>Four contexts as their constructor leaves them, with no timeout.\<close>

definition fresh :: "tid store" where
  "fresh = (\<lambda>_. CancelContext_init 0 None DoNothing)"

text \<open>A process with the default handler, no timer and no watcher thread.\<close>

definition proc0 :: proc where
  "proc0 = \<lparr>sigalrm_handler = SigDefault, itimer_real = (0, 0), watchers = []\<rparr>"

text \<open>A cancel scope with deadline 5 whose cancellation was triggered.\<close>

definition called :: CancelScope where
  "called = \<lparr>scope_deadline = At 5, cancel_called = True\<rparr>"

text \<open>
  An alarm scope with timeout 5 entered at clock 0, in whose body another context
  was completed.
\<close>

definition bounded :: "proc \<times> tid store \<times> tid alarm_scope list" where
  "bounded =
     (proc0\<lparr>sigalrm_handler := RaiseAlarmAsTimeout (Some 5) (Some 5), itimer_real := (5, 0)\<rparr>,
      fresh(T1 := CancelContext_init 0 (Some 5) RaiseSigalrm,
            T2 := (fresh T2)\<lparr>ctx_completed := True\<rparr>),
      [\<lparr>sc_timeout = Some 5, sc_deadline = Some 5, sc_previous = Some (0, 0), sc_ctx = T1\<rparr>])"

text \<open>
  An alarm scope with timeout 1 entered at clock 0, after a nested alarm scope with
  timeout 10 was entered and left inside it: the handler is still the one of the
  nested scope.
\<close>

definition nested :: "proc \<times> tid store \<times> tid alarm_scope list" where
  "nested =
     (proc0\<lparr>sigalrm_handler := RaiseAlarmAsTimeout (Some 10) (Some 10), itimer_real := (1, 0)\<rparr>,
      fresh(T1 := CancelContext_init 0 (Some 1) RaiseSigalrm,
            T2 := (CancelContext_init 0 (Some 10) RaiseSigalrm)\<lparr>ctx_completed := True\<rparr>),
      [\<lparr>sc_timeout = Some 1, sc_deadline = Some 1, sc_previous = Some (0, 0), sc_ctx = T1\<rparr>])"

subsection \<open>Relations between stores\<close>

text \<open>
  \<open>grows h h'\<close>: the store \<open>h'\<close> differs from \<open>h\<close> only in cancelled flags that went
  from false to true, on contexts that are not completed.
\<close>

definition grows :: "'r store \<Rightarrow> 'r store \<Rightarrow> bool" where
  "grows h h' = (\<forall>x. h' x = (h x)\<lparr>ctx_cancelled := ctx_cancelled (h' x)\<rparr> \<and>
                     (ctx_cancelled (h x) \<longrightarrow> ctx_cancelled (h' x)) \<and>
                     (ctx_completed (h x) \<longrightarrow> h' x = h x))"

text \<open>
  \<open>excl\<close>: no context is both cancelled and completed. \<open>keeps h h'\<close>: every terminal
  flag set in \<open>h\<close> is set in \<open>h'\<close>.
\<close>

definition excl :: "'r store \<Rightarrow> bool" where
  "excl h = (\<forall>r. \<not> (cancelled h r \<and> completed h r))"

definition keeps :: "'r store \<Rightarrow> 'r store \<Rightarrow> bool" where
  "keeps h h' = (\<forall>r. (cancelled h r \<longrightarrow> cancelled h' r) \<and> (completed h r \<longrightarrow> completed h' r))"

text \<open>
  \<open>ranked rank h\<close>: every chained child has a smaller rank than its parent, so no
  context reaches itself through chained lists.
\<close>

definition ranked :: "('r \<Rightarrow> nat) \<Rightarrow> 'r store \<Rightarrow> bool" where
  "ranked rank h = (\<forall>x. \<forall>c\<in>set (ctx_chained (h x)). rank c < rank x)"

text \<open>Two contexts chained to each other.\<close>

definition cyc :: "tid store" where
  "cyc = snd (run fresh [Chain T1 T2, Chain T2 T1])"

text \<open>The first context cancelled, the second one completed.\<close>

definition late :: "tid store" where
  "late = snd (run fresh [MarkCancelled T1, MarkCompleted T2])"

text \<open>The first context with the second and third one chained, and a rank for it.\<close>

definition tree :: "tid store" where
  "tree = snd (run fresh [Chain T1 T2, Chain T1 T3])"

definition depth :: "tid \<Rightarrow> nat" where
  "depth x = (if x = T1 then 1 else 0)"

text \<open>
  \<open>alike p h g\<close>: the stores \<open>h\<close> and \<open>g\<close> differ at most in the chained list of \<open>p\<close>.
\<close>

definition alike :: "'r \<Rightarrow> 'r store \<Rightarrow> 'r store \<Rightarrow> bool" where
  "alike p h g = ((\<forall>x. x \<noteq> p \<longrightarrow> g x = h x) \<and>
                  (h p)\<lparr>ctx_chained := ctx_chained (g p)\<rparr> = g p)"

text \<open>
  The first context with the second one and itself chained, the second one completed;
  two contexts both completed; and the first context with a completed and a fresh
  child.
\<close>

definition ring :: "tid store" where
  "ring = snd (run fresh [Chain T1 T2, Chain T1 T1, MarkCompleted T2])"

definition both_done :: "tid store" where
  "both_done = snd (run fresh [Chain T1 T2, MarkCompleted T2, MarkCompleted T1])"

definition one_done :: "tid store" where
  "one_done = snd (run fresh [Chain T1 T2, Chain T1 T3, MarkCompleted T2])"

text \<open>
  \<open>settled h c\<close>: the context \<open>c\<close> is cancelled or completed. \<open>closed_but E h\<close>: apart
  from the contexts in \<open>E\<close>, every chained child of a cancelled context is settled.
\<close>

definition settled :: "'r store \<Rightarrow> 'r \<Rightarrow> bool" where
  "settled h c = (ctx_cancelled (h c) \<or> ctx_completed (h c))"

definition closed_but :: "'r set \<Rightarrow> 'r store \<Rightarrow> bool" where
  "closed_but E h =
     (\<forall>x. x \<notin> E \<longrightarrow> ctx_cancelled (h x) \<longrightarrow> (\<forall>c\<in>set (ctx_chained (h x)). settled h c))"

text \<open>
  \<open>prunes h g\<close>: the stores have the same chained lists, and every context completed
  in \<open>h\<close> is completed in \<open>g\<close>, so a cascade in \<open>g\<close> visits no more than one in \<open>h\<close>.
\<close>

definition prunes :: "'r store \<Rightarrow> 'r store \<Rightarrow> bool" where
  "prunes h g = (\<forall>x. ctx_chained (g x) = ctx_chained (h x) \<and>
                     (ctx_completed (h x) \<longrightarrow> ctx_completed (g x)))"

text \<open>
  \<open>calm h\<close>: marking a cancelled context again returns. \<open>steady h\<close>: the store is
  closed and calm.
\<close>

definition calm :: "'r::finite store \<Rightarrow> bool" where
  "calm h = (\<forall>x. ctx_cancelled (h x) \<longrightarrow> fst (mark_cancelled_locked {} h x) \<noteq> Blocked)"

definition steady :: "'r::finite store \<Rightarrow> bool" where
  "steady h = (closed_but {} h \<and> calm h)"

text \<open>\<open>same_shape h g\<close>: the stores differ at most in cancelled flags.\<close>

definition same_shape :: "'r store \<Rightarrow> 'r store \<Rightarrow> bool" where
  "same_shape h g = (\<forall>x. ctx_chained (g x) = ctx_chained (h x) \<and>
                         ctx_completed (g x) = ctx_completed (h x))"

text \<open>
  A chain of three contexts whose last one was completed before the first one was
  cancelled.
\<close>

definition line :: "tid store" where
  "line = snd (run fresh [Chain T1 T2, Chain T2 T3, MarkCompleted T3, MarkCancelled T1])"

section \<open>Marking: projections, induction and frame\<close>

lemma mc_fst:
  "fst (mark_cancelled_locked L h r) =
     (if r \<in> L then Blocked
      else if ctx_completed (h r) then Returned False
      else (case fst (cascade (insert r L) (h(r := (h r)\<lparr>ctx_cancelled := True\<rparr>))
                        (ctx_chained (h r))) of
              Returned u \<Rightarrow> Returned True | Blocked \<Rightarrow> Blocked))"
  by (simp add: mark_cancelled_locked.simps split: prod.splits outcome.splits)

lemma mc_snd:
  "snd (mark_cancelled_locked L h r) =
     (if r \<in> L \<or> ctx_completed (h r) then h
      else snd (cascade (insert r L) (h(r := (h r)\<lparr>ctx_cancelled := True\<rparr>))
                  (ctx_chained (h r))))"
  by (simp add: mark_cancelled_locked.simps split: prod.splits outcome.splits)

lemma cascade_fst:
  "fst (cascade L h (c # cs)) =
     (case fst (mark_cancelled_locked L h c) of
        Returned b \<Rightarrow> fst (cascade L (snd (mark_cancelled_locked L h c)) cs)
      | Blocked \<Rightarrow> Blocked)"
  by (simp split: prod.splits outcome.splits)

lemma cascade_snd:
  "snd (cascade L h (c # cs)) =
     (case fst (mark_cancelled_locked L h c) of
        Returned b \<Rightarrow> snd (cascade L (snd (mark_cancelled_locked L h c)) cs)
      | Blocked \<Rightarrow> snd (mark_cancelled_locked L h c))"
  by (simp split: prod.splits outcome.splits)

lemma mc_induct [case_names mark nil cons]:
  assumes "\<And>L h r. (r \<notin> L \<Longrightarrow> \<not> ctx_completed (h r) \<Longrightarrow>
              Q (insert r L) (h(r := (h r)\<lparr>ctx_cancelled := True\<rparr>)) (ctx_chained (h r)))
            \<Longrightarrow> P L h r"
    and "\<And>L h. Q L h []"
    and "\<And>L h c cs. P L h c \<Longrightarrow>
            (\<And>b. fst (mark_cancelled_locked L h c) = Returned b \<Longrightarrow>
                  Q L (snd (mark_cancelled_locked L h c)) cs)
            \<Longrightarrow> Q L h (c # cs)"
  shows "P (L :: 'r::finite set) h r" and "Q L h cs"
proof (induction L h r and L h cs rule: mark_cancelled_locked_cascade.induct)
  case (1 L h r)
  show ?case by (rule assms(1)) (rule 1)
next
  case (2 L h)
  show ?case by (rule assms(2))
next
  case (3 L h c cs)
  show ?case
  proof (rule assms(3) [OF 3(1)])
    fix b
    assume "fst (mark_cancelled_locked L h c) = Returned b"
    then have "(Returned b, snd (mark_cancelled_locked L h c)) = mark_cancelled_locked L h c"
      by (metis prod.collapse)
    then show "Q L (snd (mark_cancelled_locked L h c)) cs"
      by (rule 3(2)) simp
  qed
qed

lemma grows_refl: "grows h h"
  by (simp add: grows_def)

lemma grows_trans: "grows h h1 \<Longrightarrow> grows h1 h2 \<Longrightarrow> grows h h2"
  unfolding grows_def
  apply (intro allI)
  subgoal for x
    apply (erule_tac x=x in allE)+
    apply (cases "h x"; cases "h1 x"; cases "h2 x")
    apply auto
    done
  done

lemma grows_mark: "\<not> ctx_completed (h r) \<Longrightarrow> grows h (h(r := (h r)\<lparr>ctx_cancelled := True\<rparr>))"
  by (simp add: grows_def)

lemma mc_grows:
  "grows h (snd (mark_cancelled_locked L h r))"
  "grows h (snd (cascade L h cs))"
proof (induction L h r and L h cs rule: mc_induct)
  case (mark L h r)
  show ?case
  proof (cases "r \<in> L \<or> ctx_completed (h r)")
    case True
    then show ?thesis by (simp add: mc_snd grows_refl)
  next
    case False
    then have a: "r \<notin> L" "\<not> ctx_completed (h r)" by auto
    have g: "grows h (snd (cascade (insert r L) (h(r := (h r)\<lparr>ctx_cancelled := True\<rparr>))
                  (ctx_chained (h r))))"
      by (rule grows_trans [OF grows_mark [of h r, OF a(2)] mark [OF a]])
    have e: "snd (mark_cancelled_locked L h r) =
             snd (cascade (insert r L) (h(r := (h r)\<lparr>ctx_cancelled := True\<rparr>))
                  (ctx_chained (h r)))"
      using a by (simp add: mc_snd)
    show ?thesis unfolding e by (rule g)
  qed
next
  case (nil L h)
  show ?case by (simp add: grows_refl)
next
  case (cons L h c cs)
  show ?case
    using cons by (auto simp: cascade_snd simp del: cascade.simps split: outcome.splits intro: grows_trans)
qed

section \<open>Completion\<close>

text \<open>
  Claim C3. \<^verbatim>\<open>mark_completed()\<close>: on a context that is already cancelled the call
  returns false and leaves the store unchanged; otherwise it returns true, sets the
  completed flag of that context and changes nothing else.
\<close>

theorem mark_completed_spec:
  "(cancelled h r \<longrightarrow> mark_completed h r = (False, h)) \<and>
   (\<not> cancelled h r \<longrightarrow>
      mark_completed h r = (True, h(r := (h r)\<lparr>ctx_completed := True\<rparr>)) \<and>
      completed (snd (mark_completed h r)) r \<and>
      (\<forall>x. x \<noteq> r \<longrightarrow> snd (mark_completed h r) x = h x))"
  by (simp add: mark_completed_def cancelled_def completed_def)

theorem mark_completed_spec_witness:
  "cancelled (fresh(T1 := (fresh T1)\<lparr>ctx_cancelled := True\<rparr>)) T1 \<and>
   mark_completed (fresh(T1 := (fresh T1)\<lparr>ctx_cancelled := True\<rparr>)) T1 =
     (False, fresh(T1 := (fresh T1)\<lparr>ctx_cancelled := True\<rparr>)) \<and>
   \<not> cancelled fresh T2 \<and>
   fst (mark_completed fresh T2) = True \<and>
   completed (snd (mark_completed fresh T2)) T2 \<and>
   snd (mark_completed fresh T2) T1 = fresh T1"
  using mark_completed_spec [of "fresh(T1 := (fresh T1)\<lparr>ctx_cancelled := True\<rparr>)" T1]
    mark_completed_spec [of fresh T2]
  by (simp add: cancelled_def completed_def fresh_def CancelContext_init_def)

section \<open>Enforcers\<close>

text \<open>Leaving an alarm scope does not set the handler of \<^verbatim>\<open>SIGALRM\<close> back.\<close>

lemma alarm_exit_keeps_handler:
  "sigalrm_handler (fst (alarm_based_timeout_exit timeout previous h ctx p)) = sigalrm_handler p"
  by (simp add: alarm_based_timeout_exit_def split: option.splits)

lemma alarm_run_bodies:
  "alarm_run (p, h, ss) (map Body bodies) = Some (q, g, ss') \<Longrightarrow> q = p \<and> ss' = ss"
proof (induction bodies arbitrary: h)
  case Nil
  then show ?case by simp
next
  case (Cons b bs)
  then show ?case
    by (auto simp del: run.simps split: prod.splits outcome.splits)
qed

lemma alarm_enter_main:
  "alarm_based_timeout_enter True now0 now1 timeout p =
     (p\<lparr>sigalrm_handler := RaiseAlarmAsTimeout timeout (get_deadline now0 timeout),
        itimer_real := (case timeout of None \<Rightarrow> itimer_real p | Some t \<Rightarrow> (t, 0))\<rparr>,
      Inr (CancelContext_init now1 timeout RaiseSigalrm,
           (case timeout of None \<Rightarrow> None | Some t \<Rightarrow> Some (itimer_real p))))"
  by (simp add: alarm_based_timeout_enter_def Let_def split: option.splits)

lemma classify:
  "raise_alarm_as_timeout timeout (get_deadline entry timeout) now g r = (Returned e, g') \<Longrightarrow>
     (e = TimeoutError \<longleftrightarrow> (\<exists>d. get_deadline entry timeout = Some d \<and> d \<le> now)) \<and>
     (e \<noteq> TimeoutError \<longrightarrow> e = CancelledError)"
  by (auto simp: raise_alarm_as_timeout_def get_deadline_def
      split: prod.splits outcome.splits option.splits if_splits)

text \<open>
  Claim C5, as amended. When the exit path of \<^verbatim>\<open>cancel_async_at\<close> raises, the
  exception is \<^verbatim>\<open>TimeoutError\<close> exactly when the deadline is set and the clock read
  at that moment has reached or passed it (\<open>d \<le> now\<close>, equality included); otherwise
  it is \<^verbatim>\<open>CancelledError\<close>. The same holds for the handler of \<^verbatim>\<open>SIGALRM\<close> and the
  deadline of the alarm scope that installed it, as long as that scope is open and no
  other alarm scope was entered since: whatever the main thread did before, once it
  has entered the scope and then only operated on contexts, the scope is the innermost
  open one, its handler is installed, and the handler raises by that rule.
\<close>

theorem fault_classification:
  "(cancel_async_at_exit deadline scope now h ctx = (Returned (Some e), h') \<longrightarrow>
      (e = TimeoutError \<longleftrightarrow> (\<exists>d. deadline = Some d \<and> d \<le> now)) \<and>
      (e \<noteq> TimeoutError \<longrightarrow> e = CancelledError)) \<and>
   (alarm_run st (AlarmEnter entry init timeout r # map Body bodies) = Some (q, g, ss) \<longrightarrow>
      (\<exists>s rest. ss = s # rest \<and> sc_ctx s = r \<and> sc_timeout s = timeout \<and>
                 sc_deadline s = get_deadline entry timeout) \<and>
      fire_sigalrm (sigalrm_handler q) later g r \<noteq> None \<and>
      (fire_sigalrm (sigalrm_handler q) later g r = Some (Returned e', g') \<longrightarrow>
         (e' = TimeoutError \<longleftrightarrow> (\<exists>d. get_deadline entry timeout = Some d \<and> d \<le> later)) \<and>
         (e' \<noteq> TimeoutError \<longrightarrow> e' = CancelledError)))"
proof (intro conjI impI)
  assume "cancel_async_at_exit deadline scope now h ctx = (Returned (Some e), h')"
  then show "e = TimeoutError \<longleftrightarrow> (\<exists>d. deadline = Some d \<and> d \<le> now)"
    by (auto simp: cancel_async_at_exit_def split: prod.splits outcome.splits option.splits if_splits)
next
  assume "cancel_async_at_exit deadline scope now h ctx = (Returned (Some e), h')"
    and "e \<noteq> TimeoutError"
  then show "e = CancelledError"
    by (auto simp: cancel_async_at_exit_def split: prod.splits outcome.splits option.splits if_splits)
next
  assume a: "alarm_run st (AlarmEnter entry init timeout r # map Body bodies) = Some (q, g, ss)"
  obtain p h0 ss0 where st: "st = (p, h0, ss0)"
    by (cases st) auto
  define p1 where "p1 = p\<lparr>sigalrm_handler := RaiseAlarmAsTimeout timeout (get_deadline entry timeout),
        itimer_real := (case timeout of None \<Rightarrow> itimer_real p | Some t \<Rightarrow> (t, 0))\<rparr>"
  define s1 where "s1 = \<lparr>sc_timeout = timeout, sc_deadline = get_deadline entry timeout,
        sc_previous = (case timeout of None \<Rightarrow> None | Some t \<Rightarrow> Some (itimer_real p)),
        sc_ctx = r\<rparr>"
  have b: "alarm_run (p1, h0(r := CancelContext_init init timeout RaiseSigalrm), s1 # ss0)
             (map Body bodies) = Some (q, g, ss)"
    using a unfolding st p1_def s1_def by (simp add: alarm_enter_main)
  have c: "q = p1" "ss = s1 # ss0"
    using alarm_run_bodies [OF b] by simp_all
  show "\<exists>s rest. ss = s # rest \<and> sc_ctx s = r \<and> sc_timeout s = timeout \<and>
                 sc_deadline s = get_deadline entry timeout"
    using c by (simp add: s1_def)
  have hd: "sigalrm_handler q = RaiseAlarmAsTimeout timeout (get_deadline entry timeout)"
    using c by (simp add: p1_def)
  show "fire_sigalrm (sigalrm_handler q) later g r \<noteq> None"
    by (simp add: hd fire_sigalrm_def)
  {
    assume f: "fire_sigalrm (sigalrm_handler q) later g r = Some (Returned e', g')"
    then have "raise_alarm_as_timeout timeout (get_deadline entry timeout) later g r = (Returned e', g')"
      by (simp add: hd fire_sigalrm_def)
    note classify [OF this]
  }
  note k = this
  show "e' = TimeoutError \<longleftrightarrow> (\<exists>d. get_deadline entry timeout = Some d \<and> d \<le> later)"
    if "fire_sigalrm (sigalrm_handler q) later g r = Some (Returned e', g')"
    using k [OF that] by blast
  show "e' = CancelledError"
    if "fire_sigalrm (sigalrm_handler q) later g r = Some (Returned e', g')" "e' \<noteq> TimeoutError"
    using k [OF that(1)] that(2) by blast
qed


theorem fault_classification_witness:
  "cancel_async_at_exit (Some 5) called 7 fresh T1 =
     (Returned (Some TimeoutError), fresh(T1 := (fresh T1)\<lparr>ctx_cancelled := True\<rparr>)) \<and>
   (\<exists>d. Some (5::real) = Some d \<and> d \<le> 7) \<and>
   alarm_run (proc0, fresh, []) [AlarmEnter 0 0 (Some 5) T1, Body [MarkCompleted T2]] =
     Some bounded \<and>
   fire_sigalrm (sigalrm_handler (fst bounded)) 3 (fst (snd bounded)) T1 =
     Some (Returned CancelledError,
           (fst (snd bounded))(T1 := (fst (snd bounded) T1)\<lparr>ctx_cancelled := True\<rparr>)) \<and>
   \<not> (\<exists>d. get_deadline 0 (Some 5) = Some d \<and> d \<le> 3) \<and>
   fire_sigalrm (sigalrm_handler (fst bounded)) 7 (fst (snd bounded)) T1 =
     Some (Returned TimeoutError,
           (fst (snd bounded))(T1 := (fst (snd bounded) T1)\<lparr>ctx_cancelled := True\<rparr>)) \<and>
   (\<exists>d. get_deadline 0 (Some 5) = Some d \<and> d \<le> 7)"
  using fault_classification [where deadline = "Some 5" and scope = called and now = 7
      and h = fresh and ctx = T1 and e = TimeoutError
      and h' = "fresh(T1 := (fresh T1)\<lparr>ctx_cancelled := True\<rparr>)"
      and st = "(proc0, fresh, [])" and entry = 0 and init = 0 and timeout = "Some 5"
      and r = T1 and bodies = "[[MarkCompleted T2]]"
      and q = "fst bounded" and g = "fst (snd bounded)" and ss = "snd (snd bounded)"
      and later = 3 and e' = CancelledError
      and g' = "(fst (snd bounded))(T1 := (fst (snd bounded) T1)\<lparr>ctx_cancelled := True\<rparr>)"]
    fault_classification [where deadline = "Some 5" and scope = called and now = 7
      and h = fresh and ctx = T1 and e = TimeoutError
      and h' = "fresh(T1 := (fresh T1)\<lparr>ctx_cancelled := True\<rparr>)"
      and st = "(proc0, fresh, [])" and entry = 0 and init = 0 and timeout = "Some 5"
      and r = T1 and bodies = "[[MarkCompleted T2]]"
      and q = "fst bounded" and g = "fst (snd bounded)" and ss = "snd (snd bounded)"
      and later = 7 and e' = TimeoutError
      and g' = "(fst (snd bounded))(T1 := (fst (snd bounded) T1)\<lparr>ctx_cancelled := True\<rparr>)"]
  by (simp add: cancel_async_at_exit_def called_def mark_cancelled_def fresh_def
      CancelContext_init_def mark_cancelled_locked.simps fire_sigalrm_def
      alarm_based_timeout_enter_def raise_alarm_as_timeout_def get_deadline_def proc0_def
      Let_def bounded_def mark_completed_def)

text \<open>
  At a clock reading equal to the deadline the deadline has not strictly passed, and
  the exception is \<^verbatim>\<open>TimeoutError\<close>. And after an alarm scope was entered and left
  inside another one, the handler of the inner scope is still installed: at clock 2
  the open scope, whose deadline 1 has passed, gets \<^verbatim>\<open>CancelledError\<close>.
\<close>

theorem fault_classification_counterexample:
  "fst (cancel_async_at_exit (Some 5) called 5 fresh T1) = Returned (Some TimeoutError) \<and>
   \<not> ((5::real) < 5) \<and>
   alarm_run (proc0, fresh, [])
     [AlarmEnter 0 0 (Some 1) T1, AlarmEnter 0 0 (Some 10) T2, AlarmExit] = Some nested \<and>
   map sc_deadline (snd (snd nested)) = [Some 1] \<and>
   fire_sigalrm (sigalrm_handler (fst nested)) 2 (fst (snd nested)) T2 =
     Some (Returned CancelledError, fst (snd nested)) \<and>
   (1::real) < 2"
  by (simp add: cancel_async_at_exit_def called_def mark_cancelled_def fresh_def
      CancelContext_init_def mark_cancelled_locked.simps fire_sigalrm_def
      alarm_based_timeout_enter_def alarm_based_timeout_exit_def
      raise_alarm_as_timeout_def get_deadline_def proc0_def
      Let_def nested_def mark_completed_def)

text \<open>
  Claim C6. The timeout computed from a deadline should be \<open>max 0 (D - now)\<close> for every
  deadline that is not \<^verbatim>\<open>None\<close>. \<^verbatim>\<open>cancel_async_at\<close> tests the truth value of the
  deadline, so the deadline \<open>0\<close> gives no timeout, where \<^verbatim>\<open>cancel_sync_at\<close>, which
  tests \<^verbatim>\<open>is not None\<close>, gives \<open>max 0 (0 - now)\<close>.
\<close>

theorem cancel_async_at_zero_deadline:
  "ctx_timeout (snd (cancel_async_at_enter now0 now1 (Some 0))) = None \<and>
   cancel_sync_at_timeout now0 (Some 0) = Some (max 0 (0 - now0))"
  by (simp add: cancel_async_at_enter_def truthy_def CancelContext_init_def Let_def
      cancel_sync_at_timeout_def)

text \<open>Everywhere else both entry points compute \<open>max 0 (D - now)\<close>.\<close>

lemma remaining_time_elsewhere:
  "cancel_sync_at_timeout now deadline =
     (case deadline of None \<Rightarrow> None | Some d \<Rightarrow> Some (max 0 (d - now)))"
  "d \<noteq> 0 \<Longrightarrow> ctx_timeout (snd (cancel_async_at_enter now0 now1 (Some d))) = Some (max 0 (d - now0))"
  "ctx_timeout (snd (cancel_async_at_enter now0 now1 None)) = None"
  by (simp_all add: cancel_async_at_enter_def truthy_def CancelContext_init_def Let_def
      cancel_sync_at_timeout_def)

text \<open>
  Claim C7. Off the main thread the alarm enforcer raises \<^verbatim>\<open>ValueError\<close> and leaves
  the process state as it was: no handler is installed and no timer is set, whatever
  the timeout.
\<close>

theorem alarm_thread_precondition:
  "\<not> is_main \<Longrightarrow> alarm_based_timeout_enter is_main now0 now1 timeout p = (p, Inl ValueError)"
  by (simp add: alarm_based_timeout_enter_def)

theorem alarm_thread_precondition_witness:
  "(alarm_based_timeout_enter False 3 3 (Some 5) proc0
      :: proc \<times> (exn + tid CancelContext \<times> (real \<times> real) option)) = (proc0, Inl ValueError) \<and>
   (alarm_based_timeout_enter False 3 3 None proc0
      :: proc \<times> (exn + tid CancelContext \<times> (real \<times> real) option)) = (proc0, Inl ValueError)"
  using alarm_thread_precondition [of False 3 3 "Some 5" proc0]
    alarm_thread_precondition [of False 3 3 None proc0]
  by simp

text \<open>
  Claim C8, as amended. With no timeout no enforcer sets a timer or starts a thread.
  The alarm enforcer installs its handler of \<^verbatim>\<open>SIGALRM\<close> and changes nothing else;
  the watcher enforcer leaves the process state unchanged; the cooperative enforcer,
  entered by deadline or by timeout, opens its scope with an infinite deadline.
  \<^verbatim>\<open>cancel_sync_after\<close> leaves the process state unchanged on Windows and off the main
  thread, and on the main thread does what the alarm enforcer does; \<^verbatim>\<open>cancel_sync_at\<close>
  with no deadline is \<^verbatim>\<open>cancel_sync_after\<close> with no timeout.
\<close>

theorem unbounded_scopes:
  "alarm_based_timeout_enter True now0 now1 None p =
     (p\<lparr>sigalrm_handler := RaiseAlarmAsTimeout None None\<rparr>,
      Inr (CancelContext_init now1 None RaiseSigalrm, None)) \<and>
   watcher_thread_based_timeout_enter now1 None p =
     (p, CancelContext_init now1 None SendCancelledError) \<and>
   cancel_async_at_enter now0 now1 None =
     (\<lparr>scope_deadline = Inf, cancel_called = False\<rparr>, CancelContext_init now1 None ScopeCancel) \<and>
   cancel_async_after_enter now now0 now1 None =
     (\<lparr>scope_deadline = Inf, cancel_called = False\<rparr>, CancelContext_init now1 None ScopeCancel) \<and>
   cancel_sync_after_enter True is_main now0 now1 None p =
     (p, Inr (CancelContext_init now1 None DoNothing)) \<and>
   cancel_sync_after_enter False False now0 now1 None p =
     (p, Inr (CancelContext_init now1 None SendCancelledError)) \<and>
   cancel_sync_after_enter False True now0 now1 None p =
     (p\<lparr>sigalrm_handler := RaiseAlarmAsTimeout None None\<rparr>,
      Inr (CancelContext_init now1 None RaiseSigalrm)) \<and>
   cancel_sync_at_enter win is_main now now0 now1 None p =
     cancel_sync_after_enter win is_main now0 now1 None p"
  by (simp add: alarm_based_timeout_enter_def watcher_thread_based_timeout_enter_def
      cancel_async_at_enter_def cancel_async_after_enter_def cancel_sync_at_enter_def
      cancel_sync_after_enter_def cancel_sync_at_timeout_def get_deadline_def truthy_def Let_def)

text \<open>With no timeout the alarm enforcer replaces the handler of \<^verbatim>\<open>SIGALRM\<close>.\<close>

theorem unbounded_scopes_counterexample:
  "sigalrm_handler proc0 = SigDefault \<and>
   sigalrm_handler (fst (alarm_based_timeout_enter True 3 3 None proc0
      :: proc \<times> (exn + tid CancelContext \<times> (real \<times> real) option))) =
     RaiseAlarmAsTimeout None None"
  by (simp add: alarm_based_timeout_enter_def proc0_def get_deadline_def Let_def)

section \<open>Terminal states\<close>

lemma keeps_refl: "keeps h h"
  by (simp add: keeps_def)

lemma keeps_trans: "keeps h h1 \<Longrightarrow> keeps h1 h2 \<Longrightarrow> keeps h h2"
  by (simp add: keeps_def)

lemma grows_keeps: "grows h h' \<Longrightarrow> keeps h h'"
  unfolding grows_def keeps_def cancelled_def completed_def by metis

lemma grows_excl:
  assumes "grows h h'" and "excl h"
  shows "excl h'"
  unfolding excl_def
proof (intro allI notI)
  fix r
  assume a: "cancelled h' r \<and> completed h' r"
  have e: "h' r = (h r)\<lparr>ctx_cancelled := ctx_cancelled (h' r)\<rparr>"
    using assms(1) by (simp add: grows_def)
  have "ctx_completed (h' r)" using a by (simp add: completed_def)
  then have c: "ctx_completed (h r)" by (subst (asm) e) simp
  then have "h' r = h r" using assms(1) by (simp add: grows_def)
  then show False using a c assms(2) by (simp add: excl_def cancelled_def completed_def)
qed

lemma mark_cancelled_grows: "grows h (snd (mark_cancelled h r))"
  by (simp add: mark_cancelled_def mc_grows)

lemma snd_cancel: "snd (cancel h r) = snd (mark_cancelled h r)"
  by (simp add: cancel_def split: prod.splits outcome.splits)

lemma snd_chain:
  "snd (chain h r c) =
     (if ctx_cancelled (h r) then snd (mark_cancelled_locked {r} h c)
      else h(r := (h r)\<lparr>ctx_chained := ctx_chained (h r) @ [c]\<rparr>))"
  by (simp add: chain_def split: prod.splits outcome.splits)

lemma snd_step:
  "snd (step h x) =
     (case x of MarkCancelled r \<Rightarrow> snd (mark_cancelled h r)
      | MarkCompleted r \<Rightarrow> snd (mark_completed h r)
      | Cancel r \<Rightarrow> snd (mark_cancelled h r)
      | Chain r c \<Rightarrow> snd (chain h r c))"
proof (cases x)
  case (Cancel r)
  have "snd (step h (Cancel r)) = snd (cancel h r)"
    by (simp split: prod.splits outcome.splits)
  then show ?thesis using Cancel by (simp add: snd_cancel del: step.simps)
qed (simp_all split: prod.splits outcome.splits)

lemma mark_completed_keeps: "keeps h (snd (mark_completed h r))"
  by (simp add: mark_completed_def keeps_def cancelled_def completed_def)

lemma mark_completed_excl: "excl h \<Longrightarrow> excl (snd (mark_completed h r))"
  by (simp add: mark_completed_def excl_def cancelled_def completed_def)

lemma chain_keeps: "keeps h (snd (chain h r c))"
  by (simp add: snd_chain grows_keeps mc_grows) (simp add: keeps_def cancelled_def completed_def)

lemma chain_excl: "excl h \<Longrightarrow> excl (snd (chain h r c))"
  by (auto simp: snd_chain intro: grows_excl [OF mc_grows(1)])
    (simp add: excl_def cancelled_def completed_def)

lemma step_keeps: "keeps h (snd (step h x))"
  by (cases x)
    (simp_all add: snd_step grows_keeps mark_cancelled_grows mark_completed_keeps chain_keeps
      del: step.simps)

lemma step_excl: "excl h \<Longrightarrow> excl (snd (step h x))"
  by (cases x)
    (simp_all add: snd_step grows_excl [OF mark_cancelled_grows] mark_completed_excl chain_excl
      del: step.simps)

lemma snd_run_Cons:
  "snd (run h (x # xs)) =
     (case fst (step h x) of Returned u \<Rightarrow> snd (run (snd (step h x)) xs)
      | Blocked \<Rightarrow> snd (step h x))"
  by (simp split: prod.splits outcome.splits)

lemma run_keeps: "keeps h (snd (run h xs))"
proof (induction xs arbitrary: h)
  case Nil
  show ?case by (simp add: keeps_refl)
next
  case (Cons x xs)
  show ?case
    using keeps_trans [OF step_keeps [of h x] Cons [of "snd (step h x)"]] step_keeps [of h x]
    by (simp add: snd_run_Cons del: run.simps split: outcome.splits)
qed

lemma run_excl: "excl h \<Longrightarrow> excl (snd (run h xs))"
proof (induction xs arbitrary: h)
  case Nil
  then show ?case by simp
next
  case (Cons x xs)
  show ?case
    using Cons.IH [OF step_excl [OF Cons.prems, of x]] step_excl [OF Cons.prems, of x]
    by (simp add: snd_run_Cons del: run.simps split: outcome.splits)
qed

lemma run_append:
  "run h (xs @ ys) =
     (case run h xs of (Returned u, h') \<Rightarrow> run h' ys | (Blocked, h') \<Rightarrow> (Blocked, h'))"
  by (induction xs arbitrary: h) (auto split: prod.splits outcome.splits)

lemma run_append_keeps: "keeps (snd (run h xs)) (snd (run h (xs @ ys)))"
  by (auto simp: run_append keeps_refl split: prod.splits outcome.splits)
    (metis run_keeps)

text \<open>
  Claim C1. Start from a store in which no context is cancelled or completed and run
  any sequence of \<^verbatim>\<open>mark_cancelled\<close>, \<^verbatim>\<open>mark_completed\<close>, \<^verbatim>\<open>cancel\<close> and \<^verbatim>\<open>chain\<close>
  calls (a call that blocks ends the run; the store is then the one at that moment).
  No context is both cancelled and completed afterwards, and a context that is
  cancelled, or completed, stays so under every further sequence of calls.
\<close>

theorem terminal_exclusivity:
  assumes "\<forall>r. \<not> cancelled h r \<and> \<not> completed h r"
  shows "\<not> (cancelled (snd (run h ops)) r \<and> completed (snd (run h ops)) r) \<and>
         (cancelled (snd (run h ops)) r \<longrightarrow> cancelled (snd (run h (ops @ later))) r) \<and>
         (completed (snd (run h ops)) r \<longrightarrow> completed (snd (run h (ops @ later))) r)"
proof -
  have "excl h" using assms by (simp add: excl_def)
  then have "excl (snd (run h ops))" by (rule run_excl)
  then show ?thesis
    using run_append_keeps [of h ops later] by (simp add: excl_def keeps_def)
qed

theorem terminal_exclusivity_witness:
  "(\<forall>r. \<not> cancelled fresh r \<and> \<not> completed fresh r) \<and>
   cancelled (snd (run fresh [Chain T1 T2, MarkCompleted T3, MarkCancelled T1])) T2 \<and>
   \<not> completed (snd (run fresh [Chain T1 T2, MarkCompleted T3, MarkCancelled T1])) T2 \<and>
   cancelled (snd (run fresh ([Chain T1 T2, MarkCompleted T3, MarkCancelled T1] @
      [MarkCompleted T2, Cancel T3]))) T2 \<and>
   completed (snd (run fresh [Chain T1 T2, MarkCompleted T3, MarkCancelled T1])) T3 \<and>
   \<not> cancelled (snd (run fresh [Chain T1 T2, MarkCompleted T3, MarkCancelled T1])) T3 \<and>
   completed (snd (run fresh ([Chain T1 T2, MarkCompleted T3, MarkCancelled T1] @
      [MarkCompleted T2, Cancel T3]))) T3"
proof -
  have f: "\<forall>r. \<not> cancelled fresh r \<and> \<not> completed fresh r"
    by (simp add: fresh_def cancelled_def completed_def CancelContext_init_def)
  have c: "cancelled (snd (run fresh [Chain T1 T2, MarkCompleted T3, MarkCancelled T1])) T2"
    by (simp add: fresh_def cancelled_def CancelContext_init_def chain_def mark_completed_def
        mark_cancelled_def mark_cancelled_locked.simps)
  have d: "completed (snd (run fresh [Chain T1 T2, MarkCompleted T3, MarkCancelled T1])) T3"
    by (simp add: fresh_def cancelled_def completed_def CancelContext_init_def chain_def mark_completed_def
        mark_cancelled_def mark_cancelled_locked.simps)
  show ?thesis
    using f c d
      terminal_exclusivity [OF f, of "[Chain T1 T2, MarkCompleted T3, MarkCancelled T1]" T2
        "[MarkCompleted T2, Cancel T3]"]
      terminal_exclusivity [OF f, of "[Chain T1 T2, MarkCompleted T3, MarkCancelled T1]" T3
        "[MarkCompleted T2, Cancel T3]"]
    by blast
qed

section \<open>Cascading\<close>

lemma grows_chained: "grows h h' \<Longrightarrow> ctx_chained (h' x) = ctx_chained (h x)"
  unfolding grows_def by (metis CancelContext.select_convs(4) CancelContext.surjective CancelContext.update_convs(3))

lemma grows_ctx_completed: "grows h h' \<Longrightarrow> ctx_completed (h' x) = ctx_completed (h x)"
  unfolding grows_def by (metis CancelContext.select_convs(5) CancelContext.surjective CancelContext.update_convs(3))

lemma grows_ctx_cancelled: "grows h h' \<Longrightarrow> ctx_cancelled (h x) \<Longrightarrow> ctx_cancelled (h' x)"
  unfolding grows_def by blast

lemma grows_fixed: "grows h h' \<Longrightarrow> ctx_completed (h x) \<Longrightarrow> h' x = h x"
  unfolding grows_def by blast

lemma mc_marks:
  "r \<notin> L \<Longrightarrow> ctx_completed (h r) \<or> ctx_cancelled (snd (mark_cancelled_locked L h r) r)"
proof (cases "ctx_completed (h r)")
  case False
  assume "r \<notin> L"
  then have "snd (mark_cancelled_locked L h r) =
      snd (cascade (insert r L) (h(r := (h r)\<lparr>ctx_cancelled := True\<rparr>)) (ctx_chained (h r)))"
    using False by (simp add: mc_snd)
  moreover have "ctx_cancelled ((h(r := (h r)\<lparr>ctx_cancelled := True\<rparr>)) r)" by simp
  ultimately show ?thesis
    using grows_ctx_cancelled [OF mc_grows(2)] by metis
qed simp

lemma mc_returned_not_locked: "fst (mark_cancelled_locked L h r) \<noteq> Blocked \<Longrightarrow> r \<notin> L"
  by (auto simp: mc_fst)

lemma mc_returned_value:
  "fst (mark_cancelled_locked L h r) \<noteq> Blocked \<Longrightarrow>
   fst (mark_cancelled_locked L h r) = Returned (\<not> ctx_completed (h r))"
  by (auto simp: mc_fst split: outcome.splits if_splits)

lemma cascade_marks:
  "fst (cascade L h cs) \<noteq> Blocked \<Longrightarrow>
   \<forall>c\<in>set cs. ctx_completed (h c) \<or> ctx_cancelled (snd (cascade L h cs) c)"
proof (induction cs arbitrary: h)
  case Nil
  show ?case by simp
next
  case (Cons c cs)
  let ?h1 = "snd (mark_cancelled_locked L h c)"
  have nb: "fst (mark_cancelled_locked L h c) \<noteq> Blocked"
    using Cons.prems by (auto simp: cascade_fst simp del: cascade.simps split: outcome.splits)
  then have rest: "fst (cascade L ?h1 cs) \<noteq> Blocked"
    and e: "snd (cascade L h (c # cs)) = snd (cascade L ?h1 cs)"
    using Cons.prems
    by (auto simp: cascade_fst cascade_snd simp del: cascade.simps split: outcome.splits)
  have g1: "grows h ?h1" by (rule mc_grows)
  have g2: "grows ?h1 (snd (cascade L ?h1 cs))" by (rule mc_grows)
  have "ctx_completed (h c) \<or> ctx_cancelled (?h1 c)"
    using mc_marks [OF mc_returned_not_locked [OF nb]] .
  then have hd: "ctx_completed (h c) \<or> ctx_cancelled (snd (cascade L ?h1 cs) c)"
    using grows_ctx_cancelled [OF g2] by blast
  have "\<forall>x\<in>set cs. ctx_completed (?h1 x) \<or> ctx_cancelled (snd (cascade L ?h1 cs) x)"
    using Cons.IH [OF rest] .
  then have tl: "\<forall>x\<in>set cs. ctx_completed (h x) \<or> ctx_cancelled (snd (cascade L ?h1 cs) x)"
    using grows_ctx_completed [OF g1] by simp
  show ?case unfolding e using hd tl by simp
qed

lemma mc_children:
  assumes "fst (mark_cancelled_locked L h r) \<noteq> Blocked" and "\<not> ctx_completed (h r)"
  shows "\<forall>c\<in>set (ctx_chained (h r)).
           ctx_completed (h c) \<or> ctx_cancelled (snd (mark_cancelled_locked L h r) c)"
proof -
  let ?h1 = "h(r := (h r)\<lparr>ctx_cancelled := True\<rparr>)"
  have r: "r \<notin> L" using assms(1) by (rule mc_returned_not_locked)
  have nb: "fst (cascade (insert r L) ?h1 (ctx_chained (h r))) \<noteq> Blocked"
    using assms r by (auto simp: mc_fst split: outcome.splits)
  have e: "snd (mark_cancelled_locked L h r) = snd (cascade (insert r L) ?h1 (ctx_chained (h r)))"
    using assms r by (simp add: mc_snd)
  have "\<forall>c\<in>set (ctx_chained (h r)). ctx_completed (?h1 c) \<or>
          ctx_cancelled (snd (cascade (insert r L) ?h1 (ctx_chained (h r))) c)"
    using cascade_marks [OF nb] .
  moreover have "\<And>c. ctx_completed (?h1 c) = ctx_completed (h c)" by simp
  ultimately show ?thesis unfolding e by simp
qed

lemma ranked_grows: "grows h h' \<Longrightarrow> ranked rank h \<Longrightarrow> ranked rank h'"
  by (simp add: ranked_def grows_chained)

lemma ranked_returns:
  "ranked rank h \<longrightarrow> (\<forall>l\<in>L. rank r < rank l) \<longrightarrow> fst (mark_cancelled_locked L h r) \<noteq> Blocked"
  "ranked rank h \<longrightarrow> (\<forall>c\<in>set cs. \<forall>l\<in>L. rank c < rank l) \<longrightarrow> fst (cascade L h cs) \<noteq> Blocked"
proof (induction L h r and L h cs rule: mc_induct)
  case (mark L h r)
  show ?case
  proof (intro impI)
    assume rk: "ranked rank h" and lk: "\<forall>l\<in>L. rank r < rank l"
    have r: "r \<notin> L" using lk by auto
    show "fst (mark_cancelled_locked L h r) \<noteq> Blocked"
    proof (cases "ctx_completed (h r)")
      case True
      then show ?thesis using r by (simp add: mc_fst)
    next
      case False
      let ?h1 = "h(r := (h r)\<lparr>ctx_cancelled := True\<rparr>)"
      have "ranked rank ?h1" using rk by (simp add: ranked_def)
      moreover have "\<forall>c\<in>set (ctx_chained (h r)). \<forall>l\<in>insert r L. rank c < rank l"
      proof (intro ballI)
        fix c l
        assume c: "c \<in> set (ctx_chained (h r))" and l: "l \<in> insert r L"
        have "rank c < rank r" using rk c by (simp add: ranked_def)
        then show "rank c < rank l" using l lk by (cases "l = r") (auto intro: less_trans)
      qed
      ultimately have "fst (cascade (insert r L) ?h1 (ctx_chained (h r))) \<noteq> Blocked"
        using mark [OF r False] by blast
      then show ?thesis using r False by (simp add: mc_fst split: outcome.splits)
    qed
  qed
next
  case (nil L h)
  show ?case by simp
next
  case (cons L h c cs)
  show ?case
  proof (intro impI)
    assume rk: "ranked rank h" and lk: "\<forall>x\<in>set (c # cs). \<forall>l\<in>L. rank x < rank l"
    have nb: "fst (mark_cancelled_locked L h c) \<noteq> Blocked"
      using cons(1) rk lk by simp
    then obtain b where b: "fst (mark_cancelled_locked L h c) = Returned b"
      by (cases "fst (mark_cancelled_locked L h c)") auto
    have "ranked rank (snd (mark_cancelled_locked L h c))"
      using ranked_grows [OF mc_grows(1) rk] .
    then have "fst (cascade L (snd (mark_cancelled_locked L h c)) cs) \<noteq> Blocked"
      using cons(2) [OF b] lk by simp
    then show "fst (cascade L h (c # cs)) \<noteq> Blocked"
      using b by (simp add: cascade_fst del: cascade.simps)
  qed
qed

lemma fst_mark_cancelled_cases:
  "fst (mark_cancelled h r) = Returned False \<or> fst (mark_cancelled h r) = Returned True \<or>
   fst (mark_cancelled h r) = Blocked"
  by (metis (full_types) outcome.exhaust)

text \<open>
  Claim C2, as amended. \<^verbatim>\<open>mark_cancelled()\<close> on a completed context returns false and
  leaves the whole store unchanged. Otherwise it sets the cancelled flag and, holding
  its lock, calls \<^verbatim>\<open>mark_cancelled()\<close> on the chained children in order; only cancelled
  flags of contexts that are not completed change. If the call returns, it returns
  true and every chained child is cancelled unless it was completed. It returns
  whenever no context reaches itself through chained lists (a rank decreases along
  them). For a context \<open>p\<close> and contexts \<open>c1\<close>, \<open>c2\<close> other than \<open>p\<close>, all three as their
  constructor leaves them, chaining \<open>c1\<close> and \<open>c2\<close> to \<open>p\<close> and marking \<open>p\<close> returns true
  and leaves \<open>c1\<close> and \<open>c2\<close> cancelled.
\<close>

theorem mark_cancelled_spec:
  "(completed h r \<longrightarrow> mark_cancelled h r = (Returned False, h)) \<and>
   (\<not> completed h r \<longrightarrow>
      cancelled (snd (mark_cancelled h r)) r \<and>
      grows h (snd (mark_cancelled h r)) \<and>
      mark_cancelled h r =
        (case cascade {r} (h(r := (h r)\<lparr>ctx_cancelled := True\<rparr>)) (ctx_chained (h r)) of
           (Returned u, h') \<Rightarrow> (Returned True, h')
         | (Blocked, h') \<Rightarrow> (Blocked, h')) \<and>
      (fst (mark_cancelled h r) \<noteq> Blocked \<longrightarrow>
         fst (mark_cancelled h r) = Returned True \<and>
         (\<forall>c\<in>set (ctx_chained (h r)).
            completed h c \<or> cancelled (snd (mark_cancelled h r)) c)) \<and>
      (ranked rank h \<longrightarrow> fst (mark_cancelled h r) = Returned True)) \<and>
   (\<not> cancelled g p \<and> \<not> completed g p \<and> ctx_chained (g p) = [] \<and>
    \<not> cancelled g c1 \<and> \<not> completed g c1 \<and> ctx_chained (g c1) = [] \<and>
    \<not> cancelled g c2 \<and> \<not> completed g c2 \<and> ctx_chained (g c2) = [] \<and>
    p \<noteq> c1 \<and> p \<noteq> c2 \<longrightarrow>
      fst (mark_cancelled (snd (chain (snd (chain g p c1)) p c2)) p) = Returned True \<and>
      cancelled (snd (mark_cancelled (snd (chain (snd (chain g p c1)) p c2)) p)) c1 \<and>
      cancelled (snd (mark_cancelled (snd (chain (snd (chain g p c1)) p c2)) p)) c2)"
proof (intro conjI impI)
  assume "completed h r"
  then show "mark_cancelled h r = (Returned False, h)"
    by (simp add: mark_cancelled_def completed_def mark_cancelled_locked.simps)
next
  assume a: "\<not> completed h r"
  show "cancelled (snd (mark_cancelled h r)) r"
    using a mc_marks [of r "{}" h] by (simp add: mark_cancelled_def completed_def cancelled_def)
  show "grows h (snd (mark_cancelled h r))"
    by (simp add: mark_cancelled_def mc_grows)
  show "mark_cancelled h r =
        (case cascade {r} (h(r := (h r)\<lparr>ctx_cancelled := True\<rparr>)) (ctx_chained (h r)) of
           (Returned u, h') \<Rightarrow> (Returned True, h')
         | (Blocked, h') \<Rightarrow> (Blocked, h'))"
    using a by (simp add: mark_cancelled_def completed_def mark_cancelled_locked.simps)
next
  assume a: "\<not> completed h r" and nb: "fst (mark_cancelled h r) \<noteq> Blocked"
  show "fst (mark_cancelled h r) = Returned True"
    using a nb mc_returned_value [of "{}" h r] by (simp add: mark_cancelled_def completed_def)
  show "\<forall>c\<in>set (ctx_chained (h r)). completed h c \<or> cancelled (snd (mark_cancelled h r)) c"
    using a nb mc_children [of "{}" h r]
    by (simp add: mark_cancelled_def completed_def cancelled_def)
next
  assume a: "\<not> completed h r" and rk: "ranked rank h"
  have "fst (mark_cancelled_locked {} h r) \<noteq> Blocked"
    using ranked_returns(1) [of rank h "{}" r] rk by simp
  then show "fst (mark_cancelled h r) = Returned True"
    using a mc_returned_value [of "{}" h r] by (simp add: mark_cancelled_def completed_def)
next
  assume f: "\<not> cancelled g p \<and> \<not> completed g p \<and> ctx_chained (g p) = [] \<and>
    \<not> cancelled g c1 \<and> \<not> completed g c1 \<and> ctx_chained (g c1) = [] \<and>
    \<not> cancelled g c2 \<and> \<not> completed g c2 \<and> ctx_chained (g c2) = [] \<and>
    p \<noteq> c1 \<and> p \<noteq> c2"
  then have e: "snd (chain (snd (chain g p c1)) p c2) = g(p := (g p)\<lparr>ctx_chained := [c1, c2]\<rparr>)"
    by (simp add: chain_def cancelled_def)
  show "fst (mark_cancelled (snd (chain (snd (chain g p c1)) p c2)) p) = Returned True"
    unfolding e using f
    by (auto simp: mark_cancelled_def mark_cancelled_locked.simps cancelled_def completed_def)
  show "cancelled (snd (mark_cancelled (snd (chain (snd (chain g p c1)) p c2)) p)) c1"
    unfolding e using f
    by (auto simp: mark_cancelled_def mark_cancelled_locked.simps cancelled_def completed_def)
  show "cancelled (snd (mark_cancelled (snd (chain (snd (chain g p c1)) p c2)) p)) c2"
    unfolding e using f
    by (auto simp: mark_cancelled_def mark_cancelled_locked.simps cancelled_def completed_def)
qed

text \<open>
  On two contexts chained to each other the call on the first one, which is not
  completed, never returns: the cascade comes back to the lock the call holds.
\<close>

theorem mark_cancelled_spec_counterexample:
  "\<not> completed cyc T1 \<and> fst (mark_cancelled cyc T1) = Blocked"
  by (simp add: cyc_def fresh_def CancelContext_init_def chain_def completed_def
      mark_cancelled_def mark_cancelled_locked.simps)

theorem mark_cancelled_spec_witness:
  "completed (snd (mark_completed fresh T4)) T4 \<and>
   mark_cancelled (snd (mark_completed fresh T4)) T4 =
     (Returned False, snd (mark_completed fresh T4)) \<and>
   \<not> completed tree T1 \<and>
   fst (mark_cancelled tree T1) = Returned True \<and>
   cancelled (snd (mark_cancelled tree T1)) T1 \<and>
   \<not> cancelled fresh T1 \<and> \<not> completed fresh T1 \<and> ctx_chained (fresh T1) = [] \<and>
   cancelled (snd (mark_cancelled (snd (chain (snd (chain fresh T1 T2)) T1 T3)) T1)) T2 \<and>
   cancelled (snd (mark_cancelled (snd (chain (snd (chain fresh T1 T2)) T1 T3)) T1)) T3"
proof -
  have a: "completed (snd (mark_completed fresh T4)) T4"
    by (simp add: mark_completed_def fresh_def CancelContext_init_def completed_def)
  have b: "\<not> completed tree T1"
    by (simp add: tree_def fresh_def CancelContext_init_def completed_def chain_def)
  have c: "ranked depth tree"
    by (simp add: ranked_def depth_def tree_def fresh_def CancelContext_init_def chain_def)
  have d: "\<not> cancelled fresh T1 \<and> \<not> completed fresh T1 \<and> ctx_chained (fresh T1) = [] \<and>
    \<not> cancelled fresh T2 \<and> \<not> completed fresh T2 \<and> ctx_chained (fresh T2) = [] \<and>
    \<not> cancelled fresh T3 \<and> \<not> completed fresh T3 \<and> ctx_chained (fresh T3) = [] \<and>
    T1 \<noteq> T2 \<and> T1 \<noteq> T3"
    by (simp add: fresh_def CancelContext_init_def completed_def cancelled_def)
  note s = mark_cancelled_spec [of tree T1 depth fresh T1 T2 T3]
  note t = mark_cancelled_spec [of "snd (mark_completed fresh T4)" T4 depth fresh T1 T2 T3]
  have w1: "mark_cancelled (snd (mark_completed fresh T4)) T4 =
      (Returned False, snd (mark_completed fresh T4))"
    using t a by blast
  have w2: "fst (mark_cancelled tree T1) = Returned True"
    using s b c by blast
  then have nb: "fst (mark_cancelled tree T1) \<noteq> Blocked"
    by simp
  have w3: "cancelled (snd (mark_cancelled tree T1)) T1"
    using s b by blast
  have w5: "cancelled (snd (mark_cancelled (snd (chain (snd (chain fresh T1 T2)) T1 T3)) T1)) T2 \<and>
      cancelled (snd (mark_cancelled (snd (chain (snd (chain fresh T1 T2)) T1 T3)) T1)) T3"
    using s d by blast
  show ?thesis
    using a b d w1 w2 w3 w5 by blast
qed

text \<open>
  Claim C4, as amended. If \<open>p\<close> is cancelled, \<^verbatim>\<open>p.chain(c)\<close> calls \<^verbatim>\<open>c.mark_cancelled()\<close>
  while it holds the lock of \<open>p\<close>: a child that is not completed is cancelled during
  the call, a completed child is left as it is, and the chained list of \<open>p\<close> does not
  change. If \<open>p\<close> is not cancelled, \<open>c\<close> is appended to the chained list of \<open>p\<close> and
  nothing else changes; a \<^verbatim>\<open>p.mark_cancelled()\<close> that follows on a \<open>p\<close> that is not
  completed, and returns, returns true and leaves \<open>c\<close> cancelled unless \<open>c\<close> was
  completed.
\<close>

theorem chain_spec:
  "(cancelled h p \<and> \<not> completed h c \<longrightarrow>
      snd (chain h p c) = snd (mark_cancelled_locked {p} h c) \<and>
      cancelled (snd (chain h p c)) c \<and>
      ctx_chained (snd (chain h p c) p) = ctx_chained (h p)) \<and>
   (cancelled h p \<and> completed h c \<longrightarrow> snd (chain h p c) = h) \<and>
   (\<not> cancelled h p \<longrightarrow>
      chain h p c = (Returned (), h(p := (h p)\<lparr>ctx_chained := ctx_chained (h p) @ [c]\<rparr>))) \<and>
   (\<not> cancelled h p \<and> \<not> completed h p \<and>
    fst (mark_cancelled (snd (chain h p c)) p) \<noteq> Blocked \<longrightarrow>
      fst (mark_cancelled (snd (chain h p c)) p) = Returned True \<and>
      (completed h c \<or> cancelled (snd (mark_cancelled (snd (chain h p c)) p)) c))"
proof (intro conjI impI)
  assume a: "cancelled h p \<and> \<not> completed h c"
  then show e: "snd (chain h p c) = snd (mark_cancelled_locked {p} h c)"
    by (simp add: snd_chain cancelled_def)
  have "ctx_cancelled (snd (mark_cancelled_locked {p} h c) c)"
  proof (cases "c = p")
    case True
    then show ?thesis using a by (simp add: mc_snd cancelled_def)
  next
    case False
    then show ?thesis
      using a mc_marks [of c "{p}" h] by (simp add: completed_def)
  qed
  then show "cancelled (snd (chain h p c)) c"
    unfolding e by (simp add: cancelled_def)
  show "ctx_chained (snd (chain h p c) p) = ctx_chained (h p)"
    unfolding e by (rule grows_chained [OF mc_grows(1)])
next
  assume "cancelled h p \<and> completed h c"
  then show "snd (chain h p c) = h"
    by (simp add: snd_chain cancelled_def completed_def mc_snd)
next
  assume "\<not> cancelled h p"
  then show "chain h p c = (Returned (), h(p := (h p)\<lparr>ctx_chained := ctx_chained (h p) @ [c]\<rparr>))"
    by (simp add: chain_def cancelled_def)
next
  assume a: "\<not> cancelled h p \<and> \<not> completed h p \<and>
    fst (mark_cancelled (snd (chain h p c)) p) \<noteq> Blocked"
  let ?h1 = "h(p := (h p)\<lparr>ctx_chained := ctx_chained (h p) @ [c]\<rparr>)"
  have e: "snd (chain h p c) = ?h1" using a by (simp add: snd_chain cancelled_def)
  have nc: "\<not> ctx_completed (?h1 p)" using a by (simp add: completed_def)
  have nb: "fst (mark_cancelled_locked {} ?h1 p) \<noteq> Blocked"
    using a by (simp add: e mark_cancelled_def)
  show "fst (mark_cancelled (snd (chain h p c)) p) = Returned True"
    using mc_returned_value [OF nb] nc by (simp add: e mark_cancelled_def)
  have "\<forall>x\<in>set (ctx_chained (?h1 p)).
          ctx_completed (?h1 x) \<or> ctx_cancelled (snd (mark_cancelled_locked {} ?h1 p) x)"
    by (rule mc_children [OF nb nc])
  then have "ctx_completed (?h1 c) \<or> ctx_cancelled (snd (mark_cancelled_locked {} ?h1 p) c)"
    by simp
  moreover have "ctx_completed (?h1 c) = ctx_completed (h c)" by simp
  ultimately show "completed h c \<or> cancelled (snd (mark_cancelled (snd (chain h p c)) p)) c"
    by (simp add: e mark_cancelled_def completed_def cancelled_def)
qed

text \<open>Chaining a completed child to a cancelled parent does not cancel the child.\<close>

theorem chain_spec_counterexample:
  "cancelled late T1 \<and> \<not> cancelled (snd (chain late T1 T2)) T2 \<and>
   completed (snd (chain late T1 T2)) T2"
  by (simp add: late_def fresh_def CancelContext_init_def chain_def completed_def cancelled_def
      mark_completed_def mark_cancelled_def mark_cancelled_locked.simps)

theorem chain_spec_witness:
  "cancelled late T1 \<and> \<not> completed late T3 \<and> cancelled (snd (chain late T1 T3)) T3 \<and>
   ctx_chained (snd (chain late T1 T3) T1) = ctx_chained (late T1) \<and>
   completed late T2 \<and> snd (chain late T1 T2) = late \<and>
   \<not> cancelled fresh T1 \<and> \<not> completed fresh T1 \<and>
   ctx_chained (snd (chain fresh T1 T2) T1) = [T2] \<and>
   fst (mark_cancelled (snd (chain fresh T1 T2)) T1) = Returned True \<and>
   cancelled (snd (mark_cancelled (snd (chain fresh T1 T2)) T1)) T2"
proof -
  have a: "cancelled late T1 \<and> \<not> completed late T3 \<and> completed late T2"
    by (simp add: late_def fresh_def CancelContext_init_def completed_def cancelled_def
      mark_completed_def mark_cancelled_def mark_cancelled_locked.simps)
  have b: "\<not> cancelled fresh T1 \<and> \<not> completed fresh T1 \<and> \<not> completed fresh T2 \<and>
      ctx_chained (fresh T1) = []"
    by (simp add: fresh_def CancelContext_init_def completed_def cancelled_def)
  have c: "fst (mark_cancelled (snd (chain fresh T1 T2)) T1) \<noteq> Blocked"
    by (simp add: fresh_def CancelContext_init_def chain_def
      mark_cancelled_def mark_cancelled_locked.simps)
  note s = chain_spec [of late T1 T3]
  note t = chain_spec [of late T1 T2]
  note u = chain_spec [of fresh T1 T2]
  have w1: "cancelled (snd (chain late T1 T3)) T3 \<and>
      ctx_chained (snd (chain late T1 T3) T1) = ctx_chained (late T1)"
    using s a by blast
  have w2: "snd (chain late T1 T2) = late"
    using t a by blast
  have w3: "chain fresh T1 T2 =
      (Returned (), fresh(T1 := (fresh T1)\<lparr>ctx_chained := ctx_chained (fresh T1) @ [T2]\<rparr>))"
    using u b by blast
  have w4: "ctx_chained (snd (chain fresh T1 T2) T1) = [T2]"
    using b by (simp add: w3)
  have w5: "fst (mark_cancelled (snd (chain fresh T1 T2)) T1) = Returned True \<and>
      (completed fresh T2 \<or> cancelled (snd (mark_cancelled (snd (chain fresh T1 T2)) T1)) T2)"
    using u b c by blast
  show ?thesis
    using a b w1 w2 w4 w5 by blast
qed

section \<open>Completed children\<close>

lemma alike_other: "alike p h g \<Longrightarrow> x \<noteq> p \<Longrightarrow> g x = h x"
  by (simp add: alike_def)

lemma alike_mark:
  "alike p h g \<Longrightarrow> r \<noteq> p \<Longrightarrow>
   alike p (h(r := (h r)\<lparr>ctx_cancelled := True\<rparr>)) (g(r := (g r)\<lparr>ctx_cancelled := True\<rparr>))"
  by (simp add: alike_def)

lemma alike_mc:
  "\<forall>g. p \<in> L \<longrightarrow> alike p h g \<longrightarrow>
     fst (mark_cancelled_locked L g r) = fst (mark_cancelled_locked L h r) \<and>
     alike p (snd (mark_cancelled_locked L h r)) (snd (mark_cancelled_locked L g r))"
  "\<forall>g. p \<in> L \<longrightarrow> alike p h g \<longrightarrow>
     fst (cascade L g cs) = fst (cascade L h cs) \<and>
     alike p (snd (cascade L h cs)) (snd (cascade L g cs))"
proof (induction L h r and L h cs rule: mc_induct)
  case (mark L h r)
  show ?case
  proof (intro allI impI)
    fix g
    assume p: "p \<in> L" and a: "alike p h g"
    show "fst (mark_cancelled_locked L g r) = fst (mark_cancelled_locked L h r) \<and>
          alike p (snd (mark_cancelled_locked L h r)) (snd (mark_cancelled_locked L g r))"
    proof (cases "r \<in> L")
      case True
      then show ?thesis using a by (simp add: mc_fst mc_snd)
    next
      case False
      then have rp: "r \<noteq> p" using p by auto
      then have e: "g r = h r" using a by (rule alike_other [rotated])
      show ?thesis
      proof (cases "ctx_completed (h r)")
        case True
        then show ?thesis using a e False by (simp add: mc_fst mc_snd)
      next
        case nc: False
        let ?h1 = "h(r := (h r)\<lparr>ctx_cancelled := True\<rparr>)"
        let ?g1 = "g(r := (g r)\<lparr>ctx_cancelled := True\<rparr>)"
        have "alike p ?h1 ?g1" using a rp by (rule alike_mark)
        then have "fst (cascade (insert r L) ?g1 (ctx_chained (h r))) =
              fst (cascade (insert r L) ?h1 (ctx_chained (h r))) \<and>
            alike p (snd (cascade (insert r L) ?h1 (ctx_chained (h r))))
              (snd (cascade (insert r L) ?g1 (ctx_chained (h r))))"
          using mark [OF False nc] p by blast
        then show ?thesis using False nc by (simp add: mc_fst mc_snd e)
      qed
    qed
  qed
next
  case (nil L h)
  show ?case by simp
next
  case (cons L h c cs)
  show ?case
  proof (intro allI impI)
    fix g
    assume p: "p \<in> L" and a: "alike p h g"
    have f: "fst (mark_cancelled_locked L g c) = fst (mark_cancelled_locked L h c)"
      and s: "alike p (snd (mark_cancelled_locked L h c)) (snd (mark_cancelled_locked L g c))"
      using cons(1) p a by blast+
    show "fst (cascade L g (c # cs)) = fst (cascade L h (c # cs)) \<and>
          alike p (snd (cascade L h (c # cs))) (snd (cascade L g (c # cs)))"
    proof (cases "fst (mark_cancelled_locked L h c)")
      case (Returned b)
      then have "fst (cascade L (snd (mark_cancelled_locked L g c)) cs) =
            fst (cascade L (snd (mark_cancelled_locked L h c)) cs) \<and>
          alike p (snd (cascade L (snd (mark_cancelled_locked L h c)) cs))
            (snd (cascade L (snd (mark_cancelled_locked L g c)) cs))"
        using cons(2) [OF Returned] p s by blast
      then show ?thesis using Returned f
        by (simp add: cascade_fst cascade_snd del: cascade.simps)
    next
      case Blocked
      then show ?thesis using f s
        by (simp add: cascade_fst cascade_snd del: cascade.simps)
    qed
  qed
qed

lemma cascade_removeAll:
  "p \<in> L \<Longrightarrow> c \<notin> L \<Longrightarrow> ctx_completed (h c) \<Longrightarrow> alike p h g \<Longrightarrow>
   fst (cascade L g (removeAll c cs)) = fst (cascade L h cs) \<and>
   alike p (snd (cascade L h cs)) (snd (cascade L g (removeAll c cs)))"
proof (induction cs arbitrary: h g)
  case Nil
  then show ?case by simp
next
  case (Cons x cs)
  show ?case
  proof (cases "x = c")
    case True
    have "mark_cancelled_locked L h c = (Returned False, h)"
      using Cons.prems by (simp add: mark_cancelled_locked.simps)
    then show ?thesis using True Cons.IH [OF Cons.prems] by simp
  next
    case False
    have f: "fst (mark_cancelled_locked L g x) = fst (mark_cancelled_locked L h x)"
      and s: "alike p (snd (mark_cancelled_locked L h x)) (snd (mark_cancelled_locked L g x))"
      using alike_mc(1) [of p L h x] Cons.prems by blast+
    have k: "ctx_completed (snd (mark_cancelled_locked L h x) c)"
      using Cons.prems(3) grows_ctx_completed [OF mc_grows(1)] by metis
    show ?thesis
    proof (cases "fst (mark_cancelled_locked L h x)")
      case (Returned b)
      then show ?thesis
        using False f Cons.IH [OF Cons.prems(1,2) k s]
        by (simp add: cascade_fst cascade_snd del: cascade.simps)
    next
      case Blocked
      then show ?thesis using False f s
        by (simp add: cascade_fst cascade_snd del: cascade.simps)
    qed
  qed
qed

lemma mark_cancelled_without:
  assumes "\<not> ctx_completed (h p)" and "ctx_completed (h c)"
  shows "fst (mark_cancelled (h(p := (h p)\<lparr>ctx_chained := removeAll c (ctx_chained (h p))\<rparr>)) p) =
           fst (mark_cancelled h p) \<and>
         alike p (snd (mark_cancelled h p))
           (snd (mark_cancelled (h(p := (h p)\<lparr>ctx_chained := removeAll c (ctx_chained (h p))\<rparr>)) p))"
proof -
  let ?g = "h(p := (h p)\<lparr>ctx_chained := removeAll c (ctx_chained (h p))\<rparr>)"
  let ?h1 = "h(p := (h p)\<lparr>ctx_cancelled := True\<rparr>)"
  let ?g1 = "?g(p := (?g p)\<lparr>ctx_cancelled := True\<rparr>)"
  have cp: "c \<noteq> p" using assms by auto
  have a: "alike p ?h1 ?g1" by (simp add: alike_def)
  have k: "ctx_completed (?h1 c)" using assms cp by simp
  have "fst (cascade {p} ?g1 (removeAll c (ctx_chained (h p)))) =
          fst (cascade {p} ?h1 (ctx_chained (h p))) \<and>
        alike p (snd (cascade {p} ?h1 (ctx_chained (h p))))
          (snd (cascade {p} ?g1 (removeAll c (ctx_chained (h p)))))"
    using cascade_removeAll [of p "{p}" c ?h1 ?g1] cp k a by simp
  then show ?thesis using assms(1)
    by (simp add: mark_cancelled_def mc_fst mc_snd)
qed

text \<open>
  Claim C10, as amended. Let \<open>c\<close> be a completed child in the chained list of \<open>p\<close>.
  \<^verbatim>\<open>p.mark_cancelled()\<close> leaves \<open>c\<close> as it is: completed, and not cancelled if it was not.
  If \<open>p\<close> is not completed, the call sets \<open>p\<close> cancelled, returns true if it returns,
  and the refused call on \<open>c\<close> changes nothing: the outcome, and the state of every
  context but the chained list of \<open>p\<close>, are those of the same call with \<open>c\<close> removed
  from the chained list of \<open>p\<close>.
\<close>

theorem completed_child_kept:
  "c \<in> set (ctx_chained (h p)) \<and> completed h c \<longrightarrow>
     snd (mark_cancelled h p) c = h c \<and>
     completed (snd (mark_cancelled h p)) c \<and>
     (\<not> cancelled h c \<longrightarrow> \<not> cancelled (snd (mark_cancelled h p)) c) \<and>
     (\<not> completed h p \<longrightarrow>
        cancelled (snd (mark_cancelled h p)) p \<and>
        (fst (mark_cancelled h p) \<noteq> Blocked \<longrightarrow> fst (mark_cancelled h p) = Returned True) \<and>
        fst (mark_cancelled h p) =
          fst (mark_cancelled (h(p := (h p)\<lparr>ctx_chained := removeAll c (ctx_chained (h p))\<rparr>)) p) \<and>
        (\<forall>x. x \<noteq> p \<longrightarrow>
           snd (mark_cancelled h p) x =
           snd (mark_cancelled (h(p := (h p)\<lparr>ctx_chained := removeAll c (ctx_chained (h p))\<rparr>)) p) x) \<and>
        cancelled (snd (mark_cancelled (h(p := (h p)\<lparr>ctx_chained := removeAll c (ctx_chained (h p))\<rparr>)) p)) p)"
proof (intro impI)
  assume a: "c \<in> set (ctx_chained (h p)) \<and> completed h c"
  let ?g = "h(p := (h p)\<lparr>ctx_chained := removeAll c (ctx_chained (h p))\<rparr>)"
  have k: "ctx_completed (h c)" using a by (simp add: completed_def)
  have e: "snd (mark_cancelled h p) c = h c"
    using grows_fixed [of h "snd (mark_cancelled h p)" c] mark_cancelled_grows [of h p] k by blast
  have 1: "completed (snd (mark_cancelled h p)) c"
    using a by (simp add: e completed_def)
  have 2: "\<not> cancelled h c \<longrightarrow> \<not> cancelled (snd (mark_cancelled h p)) c"
    by (simp add: e cancelled_def)
  have 3: "\<not> completed h p \<longrightarrow>
        cancelled (snd (mark_cancelled h p)) p \<and>
        (fst (mark_cancelled h p) \<noteq> Blocked \<longrightarrow> fst (mark_cancelled h p) = Returned True) \<and>
        fst (mark_cancelled h p) = fst (mark_cancelled ?g p) \<and>
        (\<forall>x. x \<noteq> p \<longrightarrow> snd (mark_cancelled h p) x = snd (mark_cancelled ?g p) x) \<and>
        cancelled (snd (mark_cancelled ?g p)) p"
  proof (intro impI)
    assume n: "\<not> completed h p"
    then have n': "\<not> ctx_completed (h p)" by (simp add: completed_def)
    have c1: "cancelled (snd (mark_cancelled h p)) p"
      using n' mc_marks [of p "{}" h] by (simp add: mark_cancelled_def cancelled_def)
    have c2: "fst (mark_cancelled h p) \<noteq> Blocked \<longrightarrow> fst (mark_cancelled h p) = Returned True"
      using n' mc_returned_value [of "{}" h p] by (simp add: mark_cancelled_def)
    note w = mark_cancelled_without [OF n' k]
    have c3: "fst (mark_cancelled h p) = fst (mark_cancelled ?g p)"
      using w by simp
    have c4: "\<forall>x. x \<noteq> p \<longrightarrow> snd (mark_cancelled h p) x = snd (mark_cancelled ?g p) x"
      using w by (simp add: alike_def)
    have "\<not> ctx_completed (?g p)" using n' by simp
    then have c5: "cancelled (snd (mark_cancelled ?g p)) p"
      using mc_marks [of p "{}" ?g] by (simp add: mark_cancelled_def cancelled_def)
    show "cancelled (snd (mark_cancelled h p)) p \<and>
        (fst (mark_cancelled h p) \<noteq> Blocked \<longrightarrow> fst (mark_cancelled h p) = Returned True) \<and>
        fst (mark_cancelled h p) = fst (mark_cancelled ?g p) \<and>
        (\<forall>x. x \<noteq> p \<longrightarrow> snd (mark_cancelled h p) x = snd (mark_cancelled ?g p) x) \<and>
        cancelled (snd (mark_cancelled ?g p)) p"
      using c1 c2 c3 c4 c5 by blast
  qed
  show "snd (mark_cancelled h p) c = h c \<and>
     completed (snd (mark_cancelled h p)) c \<and>
     (\<not> cancelled h c \<longrightarrow> \<not> cancelled (snd (mark_cancelled h p)) c) \<and>
     (\<not> completed h p \<longrightarrow>
        cancelled (snd (mark_cancelled h p)) p \<and>
        (fst (mark_cancelled h p) \<noteq> Blocked \<longrightarrow> fst (mark_cancelled h p) = Returned True) \<and>
        fst (mark_cancelled h p) = fst (mark_cancelled ?g p) \<and>
        (\<forall>x. x \<noteq> p \<longrightarrow> snd (mark_cancelled h p) x = snd (mark_cancelled ?g p) x) \<and>
        cancelled (snd (mark_cancelled ?g p)) p)"
    using e 1 2 3 by blast
qed

text \<open>
  With a completed child and itself chained, the parent's call never returns; and a
  parent that is completed itself is refused and not cancelled.
\<close>

theorem completed_child_kept_counterexample:
  "ctx_chained (ring T1) = [T2, T1] \<and> completed ring T2 \<and> \<not> completed ring T1 \<and>
   fst (mark_cancelled ring T1) = Blocked \<and>
   ctx_chained (both_done T1) = [T2] \<and> completed both_done T2 \<and>
   mark_cancelled both_done T1 = (Returned False, both_done) \<and>
   \<not> cancelled both_done T1"
  by (simp add: ring_def both_done_def fresh_def CancelContext_init_def chain_def completed_def
      cancelled_def mark_completed_def mark_cancelled_def mark_cancelled_locked.simps)

theorem completed_child_kept_witness:
  "ctx_chained (one_done T1) = [T2, T3] \<and> completed one_done T2 \<and> \<not> cancelled one_done T2 \<and>
   \<not> completed one_done T1 \<and>
   fst (mark_cancelled one_done T1) = Returned True \<and>
   cancelled (snd (mark_cancelled one_done T1)) T1 \<and>
   cancelled (snd (mark_cancelled one_done T1)) T3 \<and>
   completed (snd (mark_cancelled one_done T1)) T2 \<and>
   \<not> cancelled (snd (mark_cancelled one_done T1)) T2"
proof -
  have a: "ctx_chained (one_done T1) = [T2, T3] \<and> completed one_done T2 \<and>
      \<not> cancelled one_done T2 \<and> \<not> completed one_done T1"
    by (simp add: one_done_def fresh_def CancelContext_init_def chain_def completed_def
      cancelled_def mark_completed_def)
  then have m: "T2 \<in> set (ctx_chained (one_done T1)) \<and> completed one_done T2"
    by simp
  have b: "fst (mark_cancelled one_done T1) = Returned True \<and>
      cancelled (snd (mark_cancelled one_done T1)) T3"
    by (simp add: one_done_def fresh_def CancelContext_init_def chain_def completed_def
      cancelled_def mark_completed_def mark_cancelled_def mark_cancelled_locked.simps)
  note s = completed_child_kept [of T2 one_done T1]
  have w1: "completed (snd (mark_cancelled one_done T1)) T2 \<and>
      \<not> cancelled (snd (mark_cancelled one_done T1)) T2 \<and>
      cancelled (snd (mark_cancelled one_done T1)) T1"
    using s m a by blast
  show ?thesis using a b w1 by blast
qed

section \<open>Marking again\<close>

lemma mark_again: "ctx_cancelled (h r) \<Longrightarrow> h(r := (h r)\<lparr>ctx_cancelled := True\<rparr>) = h"
  by (rule ext) simp

lemma closed_children:
  "closed_but {} h \<Longrightarrow> ctx_cancelled (h r) \<Longrightarrow> \<forall>c\<in>set (ctx_chained (h r)). settled h c"
  by (simp add: closed_but_def)

lemma closed_unchanged:
  "closed_but {} h \<longrightarrow> settled h r \<longrightarrow> snd (mark_cancelled_locked L h r) = h"
  "closed_but {} h \<longrightarrow> (\<forall>c\<in>set cs. settled h c) \<longrightarrow> snd (cascade L h cs) = h"
proof (induction L h r and L h cs rule: mc_induct)
  case (mark L h r)
  show ?case
  proof (intro impI)
    assume cl: "closed_but {} h" and st: "settled h r"
    show "snd (mark_cancelled_locked L h r) = h"
    proof (cases "r \<in> L \<or> ctx_completed (h r)")
      case True
      then show ?thesis by (simp add: mc_snd)
    next
      case False
      then have a: "r \<notin> L" "\<not> ctx_completed (h r)" by auto
      then have c: "ctx_cancelled (h r)" using st by (simp add: settled_def)
      have e: "h(r := (h r)\<lparr>ctx_cancelled := True\<rparr>) = h" using c by (rule mark_again)
      have "snd (cascade (insert r L) (h(r := (h r)\<lparr>ctx_cancelled := True\<rparr>)) (ctx_chained (h r))) =
            h(r := (h r)\<lparr>ctx_cancelled := True\<rparr>)"
        using mark [OF a] cl closed_children [OF cl c] unfolding e by blast
      then show ?thesis using a by (simp add: mc_snd e)
    qed
  qed
next
  case (nil L h)
  show ?case by simp
next
  case (cons L h c cs)
  show ?case
  proof (intro impI)
    assume cl: "closed_but {} h" and st: "\<forall>x\<in>set (c # cs). settled h x"
    have e: "snd (mark_cancelled_locked L h c) = h" using cons(1) cl st by simp
    show "snd (cascade L h (c # cs)) = h"
    proof (cases "fst (mark_cancelled_locked L h c)")
      case (Returned b)
      then show ?thesis
        using cons(2) [OF Returned] cl st e by (simp add: cascade_snd del: cascade.simps)
    next
      case Blocked
      then show ?thesis using e by (simp add: cascade_snd del: cascade.simps)
    qed
  qed
qed

lemma closed_but_mark:
  assumes "closed_but E h"
  shows "closed_but (insert r E) (h(r := (h r)\<lparr>ctx_cancelled := True\<rparr>))"
  unfolding closed_but_def
proof (intro allI impI ballI)
  fix x c
  let ?h1 = "h(r := (h r)\<lparr>ctx_cancelled := True\<rparr>)"
  assume x: "x \<notin> insert r E" and cx: "ctx_cancelled (?h1 x)" and c: "c \<in> set (ctx_chained (?h1 x))"
  have "x \<noteq> r" "x \<notin> E" using x by auto
  then have "settled h c" using assms cx c by (simp add: closed_but_def)
  then show "settled ?h1 c" by (simp add: settled_def)
qed

lemma closed_kept:
  "\<forall>E. closed_but E h \<longrightarrow> fst (mark_cancelled_locked L h r) \<noteq> Blocked \<longrightarrow>
     closed_but E (snd (mark_cancelled_locked L h r))"
  "\<forall>E. closed_but E h \<longrightarrow> fst (cascade L h cs) \<noteq> Blocked \<longrightarrow>
     closed_but E (snd (cascade L h cs))"
proof (induction L h r and L h cs rule: mc_induct)
  case (mark L h r)
  show ?case
  proof (intro allI impI)
    fix E
    assume cl: "closed_but E h" and nb: "fst (mark_cancelled_locked L h r) \<noteq> Blocked"
    have r: "r \<notin> L" using nb by (rule mc_returned_not_locked)
    show "closed_but E (snd (mark_cancelled_locked L h r))"
    proof (cases "ctx_completed (h r)")
      case True
      then show ?thesis using cl by (simp add: mc_snd)
    next
      case False
      let ?h1 = "h(r := (h r)\<lparr>ctx_cancelled := True\<rparr>)"
      let ?h2 = "snd (cascade (insert r L) ?h1 (ctx_chained (h r)))"
      have e: "snd (mark_cancelled_locked L h r) = ?h2" using r False by (simp add: mc_snd)
      have nb': "fst (cascade (insert r L) ?h1 (ctx_chained (h r))) \<noteq> Blocked"
        using nb r False by (auto simp: mc_fst split: outcome.splits)
      have c2: "closed_but (insert r E) ?h2"
        using mark [OF r False] closed_but_mark [OF cl] nb' by blast
      have g: "grows ?h1 ?h2" by (rule mc_grows)
      have kids: "\<forall>c\<in>set (ctx_chained (h r)). settled ?h2 c"
      proof
        fix c assume "c \<in> set (ctx_chained (h r))"
        then have "ctx_completed (?h1 c) \<or> ctx_cancelled (?h2 c)"
          using cascade_marks [OF nb'] by blast
        then show "settled ?h2 c"
          using grows_ctx_completed [OF g, of c] by (auto simp: settled_def)
      qed
      have ch: "ctx_chained (?h2 r) = ctx_chained (h r)"
        using grows_chained [OF g, of r] by simp
      have "closed_but E ?h2"
        unfolding closed_but_def
      proof (intro allI impI)
        fix x
        assume x: "x \<notin> E" and cx: "ctx_cancelled (?h2 x)"
        show "\<forall>c\<in>set (ctx_chained (?h2 x)). settled ?h2 c"
        proof (cases "x = r")
          case True
          then show ?thesis using kids ch by simp
        next
          case False
          then show ?thesis using c2 x cx by (simp add: closed_but_def)
        qed
      qed
      then show ?thesis unfolding e .
    qed
  qed
next
  case (nil L h)
  show ?case by simp
next
  case (cons L h c cs)
  show ?case
  proof (intro allI impI)
    fix E
    assume cl: "closed_but E h" and nb: "fst (cascade L h (c # cs)) \<noteq> Blocked"
    obtain b where b: "fst (mark_cancelled_locked L h c) = Returned b"
      using nb by (cases "fst (mark_cancelled_locked L h c)")
        (auto simp: cascade_fst simp del: cascade.simps)
    then have nb': "fst (cascade L (snd (mark_cancelled_locked L h c)) cs) \<noteq> Blocked"
      using nb by (simp add: cascade_fst del: cascade.simps)
    have "closed_but E (snd (mark_cancelled_locked L h c))"
      using cons(1) cl b by simp
    then have "closed_but E (snd (cascade L (snd (mark_cancelled_locked L h c)) cs))"
      using cons(2) [OF b] nb' by blast
    then show "closed_but E (snd (cascade L h (c # cs)))"
      using b by (simp add: cascade_snd del: cascade.simps)
  qed
qed

lemma prunes_mark:
  "prunes h g \<Longrightarrow>
   prunes (h(r := (h r)\<lparr>ctx_cancelled := True\<rparr>)) (g(r := (g r)\<lparr>ctx_cancelled := True\<rparr>))"
  by (simp add: prunes_def)

lemma prunes_grows:
  assumes "prunes h g" and "grows h h'" and "grows g g'"
  shows "prunes h' g'"
  using assms(1) grows_chained [OF assms(2)] grows_chained [OF assms(3)]
    grows_ctx_completed [OF assms(2)] grows_ctx_completed [OF assms(3)]
  by (simp add: prunes_def)

lemma returns_pruned:
  "\<forall>g. prunes h g \<longrightarrow> fst (mark_cancelled_locked L h r) \<noteq> Blocked \<longrightarrow>
     fst (mark_cancelled_locked L g r) \<noteq> Blocked"
  "\<forall>g. prunes h g \<longrightarrow> fst (cascade L h cs) \<noteq> Blocked \<longrightarrow> fst (cascade L g cs) \<noteq> Blocked"
proof (induction L h r and L h cs rule: mc_induct)
  case (mark L h r)
  show ?case
  proof (intro allI impI)
    fix g
    assume pr: "prunes h g" and nb: "fst (mark_cancelled_locked L h r) \<noteq> Blocked"
    have r: "r \<notin> L" using nb by (rule mc_returned_not_locked)
    show "fst (mark_cancelled_locked L g r) \<noteq> Blocked"
    proof (cases "ctx_completed (g r)")
      case True
      then show ?thesis using r by (simp add: mc_fst)
    next
      case False
      then have nc: "\<not> ctx_completed (h r)" using pr by (auto simp: prunes_def)
      let ?h1 = "h(r := (h r)\<lparr>ctx_cancelled := True\<rparr>)"
      let ?g1 = "g(r := (g r)\<lparr>ctx_cancelled := True\<rparr>)"
      have "fst (cascade (insert r L) ?h1 (ctx_chained (h r))) \<noteq> Blocked"
        using nb r nc by (auto simp: mc_fst split: outcome.splits)
      then have "fst (cascade (insert r L) ?g1 (ctx_chained (h r))) \<noteq> Blocked"
        using mark [OF r nc] prunes_mark [OF pr] by blast
      moreover have "ctx_chained (g r) = ctx_chained (h r)" using pr by (simp add: prunes_def)
      ultimately show ?thesis using r False by (simp add: mc_fst split: outcome.splits)
    qed
  qed
next
  case (nil L h)
  show ?case by simp
next
  case (cons L h c cs)
  show ?case
  proof (intro allI impI)
    fix g
    assume pr: "prunes h g" and nb: "fst (cascade L h (c # cs)) \<noteq> Blocked"
    obtain b where b: "fst (mark_cancelled_locked L h c) = Returned b"
      using nb by (cases "fst (mark_cancelled_locked L h c)")
        (auto simp: cascade_fst simp del: cascade.simps)
    then have nb': "fst (cascade L (snd (mark_cancelled_locked L h c)) cs) \<noteq> Blocked"
      using nb by (simp add: cascade_fst del: cascade.simps)
    have g1: "fst (mark_cancelled_locked L g c) \<noteq> Blocked"
      using cons(1) pr b by simp
    have "prunes (snd (mark_cancelled_locked L h c)) (snd (mark_cancelled_locked L g c))"
      using prunes_grows [OF pr mc_grows(1) mc_grows(1)] .
    then have "fst (cascade L (snd (mark_cancelled_locked L g c)) cs) \<noteq> Blocked"
      using cons(2) [OF b] nb' by blast
    then show "fst (cascade L g (c # cs)) \<noteq> Blocked"
      using g1 by (simp add: cascade_fst del: cascade.simps split: outcome.splits)
  qed
qed

lemma fewer_locks:
  "\<forall>K. K \<subseteq> L \<longrightarrow> fst (mark_cancelled_locked L h r) \<noteq> Blocked \<longrightarrow>
     fst (mark_cancelled_locked K h r) = fst (mark_cancelled_locked L h r) \<and>
     snd (mark_cancelled_locked K h r) = snd (mark_cancelled_locked L h r)"
  "\<forall>K. K \<subseteq> L \<longrightarrow> fst (cascade L h cs) \<noteq> Blocked \<longrightarrow>
     fst (cascade K h cs) = fst (cascade L h cs) \<and> snd (cascade K h cs) = snd (cascade L h cs)"
proof (induction L h r and L h cs rule: mc_induct)
  case (mark L h r)
  show ?case
  proof (intro allI impI)
    fix K
    assume k: "K \<subseteq> L" and nb: "fst (mark_cancelled_locked L h r) \<noteq> Blocked"
    have r: "r \<notin> L" using nb by (rule mc_returned_not_locked)
    then have r': "r \<notin> K" using k by auto
    show "fst (mark_cancelled_locked K h r) = fst (mark_cancelled_locked L h r) \<and>
          snd (mark_cancelled_locked K h r) = snd (mark_cancelled_locked L h r)"
    proof (cases "ctx_completed (h r)")
      case True
      then show ?thesis using r r' by (simp add: mc_fst mc_snd)
    next
      case False
      let ?h1 = "h(r := (h r)\<lparr>ctx_cancelled := True\<rparr>)"
      have nb': "fst (cascade (insert r L) ?h1 (ctx_chained (h r))) \<noteq> Blocked"
        using nb r False by (auto simp: mc_fst split: outcome.splits)
      have sub: "insert r K \<subseteq> insert r L" using k by auto
      have ih: "fst (cascade (insert r K) ?h1 (ctx_chained (h r))) =
                fst (cascade (insert r L) ?h1 (ctx_chained (h r))) \<and>
                snd (cascade (insert r K) ?h1 (ctx_chained (h r))) =
                snd (cascade (insert r L) ?h1 (ctx_chained (h r)))"
        using mark [OF r False, THEN spec, of "insert r K"] sub nb' by (rule mp [OF mp]) 
      have f: "fst (mark_cancelled_locked K h r) = fst (mark_cancelled_locked L h r)"
        unfolding mc_fst [of K] mc_fst [of L] using r r' False ih by simp
      have s: "snd (mark_cancelled_locked K h r) = snd (mark_cancelled_locked L h r)"
        unfolding mc_snd [of K] mc_snd [of L] using r r' False ih by simp
      show ?thesis using f s by (rule conjI)
    qed
  qed
next
  case (nil L h)
  show ?case by simp
next
  case (cons L h c cs)
  show ?case
  proof (intro allI impI)
    fix K
    assume k: "K \<subseteq> L" and nb: "fst (cascade L h (c # cs)) \<noteq> Blocked"
    let ?h1 = "snd (mark_cancelled_locked L h c)"
    obtain b where b: "fst (mark_cancelled_locked L h c) = Returned b"
      using nb by (cases "fst (mark_cancelled_locked L h c)")
        (auto simp: cascade_fst simp del: cascade.simps)
    then have nb': "fst (cascade L ?h1 cs) \<noteq> Blocked"
      using nb by (simp add: cascade_fst del: cascade.simps)
    have nbc: "fst (mark_cancelled_locked L h c) \<noteq> Blocked" using b by simp
    have e: "fst (mark_cancelled_locked K h c) = Returned b"
      "snd (mark_cancelled_locked K h c) = ?h1"
      using cons(1) [THEN spec, of K] k nbc b by simp_all
    have ih: "fst (cascade K ?h1 cs) = fst (cascade L ?h1 cs) \<and>
              snd (cascade K ?h1 cs) = snd (cascade L ?h1 cs)"
      using cons(2) [OF b, THEN spec, of K] k nb' by (rule mp [OF mp])
    have f: "fst (cascade K h (c # cs)) = fst (cascade L h (c # cs))"
      unfolding cascade_fst [of K] cascade_fst [of L] e b using ih by simp
    have s: "snd (cascade K h (c # cs)) = snd (cascade L h (c # cs))"
      unfolding cascade_snd [of K] cascade_snd [of L] e b using ih by simp
    show "fst (cascade K h (c # cs)) = fst (cascade L h (c # cs)) \<and>
          snd (cascade K h (c # cs)) = snd (cascade L h (c # cs))"
      using f s by (rule conjI)
  qed
qed

lemma returns_pruned_top:
  assumes "prunes h g" and "fst (mark_cancelled_locked L h r) \<noteq> Blocked"
  shows "fst (mark_cancelled_locked L g r) \<noteq> Blocked"
  using returns_pruned(1) [of h L r, THEN spec, of g] assms by (rule mp [OF mp])

lemma returns_unlocked:
  assumes "fst (mark_cancelled_locked L h r) \<noteq> Blocked"
  shows "fst (mark_cancelled_locked {} h r) \<noteq> Blocked"
proof -
  have s: "{} \<subseteq> L" by simp
  have "fst (mark_cancelled_locked {} h r) = fst (mark_cancelled_locked L h r) \<and>
        snd (mark_cancelled_locked {} h r) = snd (mark_cancelled_locked L h r)"
    using fewer_locks(1) [of L h r, THEN spec, of "{}"] s assms by (rule mp [OF mp])
  then show ?thesis using assms by simp
qed

lemma calm_pruned:
  assumes "calm h" and "prunes h g" and "\<forall>x. ctx_cancelled (g x) \<longrightarrow> ctx_cancelled (h x)"
  shows "calm g"
  unfolding calm_def
proof (intro allI impI)
  fix x
  assume "ctx_cancelled (g x)"
  then have "ctx_cancelled (h x)" using assms(3) by simp
  then have "fst (mark_cancelled_locked {} h x) \<noteq> Blocked" using assms(1) by (simp add: calm_def)
  then show "fst (mark_cancelled_locked {} g x) \<noteq> Blocked"
    by (rule returns_pruned_top [OF assms(2)])
qed

lemma calm_mark:
  assumes "calm h" and "fst (mark_cancelled_locked L h r) \<noteq> Blocked"
  shows "calm (h(r := (h r)\<lparr>ctx_cancelled := True\<rparr>))"
  unfolding calm_def
proof (intro allI impI)
  fix x
  let ?h1 = "h(r := (h r)\<lparr>ctx_cancelled := True\<rparr>)"
  assume c: "ctx_cancelled (?h1 x)"
  have p: "prunes h ?h1" by (simp add: prunes_def)
  have "fst (mark_cancelled_locked {} h x) \<noteq> Blocked"
  proof (cases "x = r")
    case True
    then show ?thesis using returns_unlocked [OF assms(2)] by simp
  next
    case False
    then have "ctx_cancelled (h x)" using c by simp
    then show ?thesis using assms(1) by (simp add: calm_def)
  qed
  then show "fst (mark_cancelled_locked {} ?h1 x) \<noteq> Blocked"
    by (rule returns_pruned_top [OF p])
qed

lemma calm_kept:
  "calm h \<longrightarrow> fst (mark_cancelled_locked L h r) \<noteq> Blocked \<longrightarrow>
     calm (snd (mark_cancelled_locked L h r))"
  "calm h \<longrightarrow> fst (cascade L h cs) \<noteq> Blocked \<longrightarrow> calm (snd (cascade L h cs))"
proof (induction L h r and L h cs rule: mc_induct)
  case (mark L h r)
  show ?case
  proof (intro impI)
    assume ca: "calm h" and nb: "fst (mark_cancelled_locked L h r) \<noteq> Blocked"
    have r: "r \<notin> L" using nb by (rule mc_returned_not_locked)
    show "calm (snd (mark_cancelled_locked L h r))"
    proof (cases "ctx_completed (h r)")
      case True
      then show ?thesis using ca r by (simp add: mc_snd)
    next
      case False
      let ?h1 = "h(r := (h r)\<lparr>ctx_cancelled := True\<rparr>)"
      have e: "snd (mark_cancelled_locked L h r) =
               snd (cascade (insert r L) ?h1 (ctx_chained (h r)))"
        using r False by (simp add: mc_snd)
      have nb': "fst (cascade (insert r L) ?h1 (ctx_chained (h r))) \<noteq> Blocked"
        using nb r False by (auto simp: mc_fst split: outcome.splits)
      have c1: "calm ?h1" using ca nb by (rule calm_mark)
      have "calm (snd (cascade (insert r L) ?h1 (ctx_chained (h r))))"
        using mark [OF r False] c1 nb' by (rule mp [OF mp])
      then show ?thesis unfolding e .
    qed
  qed
next
  case (nil L h)
  show ?case by simp
next
  case (cons L h c cs)
  show ?case
  proof (intro impI)
    assume ca: "calm h" and nb: "fst (cascade L h (c # cs)) \<noteq> Blocked"
    let ?h1 = "snd (mark_cancelled_locked L h c)"
    obtain b where b: "fst (mark_cancelled_locked L h c) = Returned b"
      using nb by (cases "fst (mark_cancelled_locked L h c)")
        (auto simp: cascade_fst simp del: cascade.simps)
    then have nb': "fst (cascade L ?h1 cs) \<noteq> Blocked"
      using nb by (simp add: cascade_fst del: cascade.simps)
    have nbc: "fst (mark_cancelled_locked L h c) \<noteq> Blocked" using b by simp
    have c1: "calm ?h1" using cons(1) ca nbc by (rule mp [OF mp])
    have c2: "calm (snd (cascade L ?h1 cs))" using cons(2) [OF b] c1 nb' by (rule mp [OF mp])
    have e: "snd (cascade L h (c # cs)) = snd (cascade L ?h1 cs)"
      using b by (simp add: cascade_snd del: cascade.simps)
    show "calm (snd (cascade L h (c # cs)))" unfolding e by (rule c2)
  qed
qed

lemma alike_flags:
  assumes "alike p h g"
  shows "ctx_cancelled (g x) = ctx_cancelled (h x)" and "ctx_completed (g x) = ctx_completed (h x)"
proof -
  have e: "g p = (h p)\<lparr>ctx_chained := ctx_chained (g p)\<rparr>"
    using assms by (simp add: alike_def)
  have o: "x \<noteq> p \<Longrightarrow> g x = h x" using assms by (simp add: alike_def)
  have "ctx_cancelled (g p) = ctx_cancelled ((h p)\<lparr>ctx_chained := ctx_chained (g p)\<rparr>)"
    by (rule arg_cong [OF e])
  then have a: "ctx_cancelled (g p) = ctx_cancelled (h p)" by simp
  have "ctx_completed (g p) = ctx_completed ((h p)\<lparr>ctx_chained := ctx_chained (g p)\<rparr>)"
    by (rule arg_cong [OF e])
  then have b: "ctx_completed (g p) = ctx_completed (h p)" by simp
  show "ctx_cancelled (g x) = ctx_cancelled (h x)" using a o by (cases "x = p") simp_all
  show "ctx_completed (g x) = ctx_completed (h x)" using b o by (cases "x = p") simp_all
qed

lemma alike_settled: "alike p h g \<Longrightarrow> settled g c = settled h c"
  by (simp add: settled_def alike_flags)

lemma alike_closed:
  assumes "closed_but {} h" and "alike p h g" and "\<not> ctx_cancelled (h p)"
  shows "closed_but {} g"
  unfolding closed_but_def
proof (intro allI impI ballI)
  fix x c
  assume cx: "ctx_cancelled (g x)" and c: "c \<in> set (ctx_chained (g x))"
  have hx: "ctx_cancelled (h x)" using cx alike_flags(1) [OF assms(2)] by simp
  then have "x \<noteq> p" using assms(3) by auto
  then have "g x = h x" using assms(2) by (simp add: alike_def)
  then have "c \<in> set (ctx_chained (h x))" using c by simp
  then have "settled h c" using closed_children [OF assms(1) hx] by simp
  then show "settled g c" using alike_settled [OF assms(2)] by simp
qed

lemma appended_same:
  "closed_but {} h \<longrightarrow> settled h r \<longrightarrow>
     (\<forall>g. alike p h g \<longrightarrow> \<not> ctx_cancelled (h p) \<longrightarrow>
          fst (mark_cancelled_locked L g r) = fst (mark_cancelled_locked L h r))"
  "closed_but {} h \<longrightarrow> (\<forall>c\<in>set cs. settled h c) \<longrightarrow>
     (\<forall>g. alike p h g \<longrightarrow> \<not> ctx_cancelled (h p) \<longrightarrow>
          fst (cascade L g cs) = fst (cascade L h cs))"
proof (induction L h r and L h cs rule: mc_induct)
  case (mark L h r)
  show ?case
  proof (intro impI allI)
    fix g
    assume cl: "closed_but {} h" and st: "settled h r"
      and al: "alike p h g" and np: "\<not> ctx_cancelled (h p)"
    have fc: "ctx_completed (g r) = ctx_completed (h r)" using al by (rule alike_flags(2))
    show "fst (mark_cancelled_locked L g r) = fst (mark_cancelled_locked L h r)"
    proof (cases "r \<in> L \<or> ctx_completed (h r)")
      case True
      then show ?thesis using fc by (auto simp: mc_fst)
    next
      case False
      then have a: "r \<notin> L" "\<not> ctx_completed (h r)" by auto
      have c: "ctx_cancelled (h r)" using st a by (simp add: settled_def)
      then have rp: "r \<noteq> p" using np by auto
      have gr: "g r = h r" using al rp by (simp add: alike_def)
      have eh: "h(r := (h r)\<lparr>ctx_cancelled := True\<rparr>) = h" using c by (rule mark_again)
      have cg: "ctx_cancelled (g r)" using c gr by simp
      have eg: "g(r := (g r)\<lparr>ctx_cancelled := True\<rparr>) = g" using cg by (rule mark_again)
      have kids: "\<forall>c\<in>set (ctx_chained (h r)). settled h c" using cl c by (rule closed_children)
      have ih: "closed_but {} h \<longrightarrow> (\<forall>c\<in>set (ctx_chained (h r)). settled h c) \<longrightarrow>
          (\<forall>g. alike p h g \<longrightarrow> \<not> ctx_cancelled (h p) \<longrightarrow>
             fst (cascade (insert r L) g (ctx_chained (h r))) =
             fst (cascade (insert r L) h (ctx_chained (h r))))"
        using mark [OF a] unfolding eh .
      have "\<forall>g. alike p h g \<longrightarrow> \<not> ctx_cancelled (h p) \<longrightarrow>
             fst (cascade (insert r L) g (ctx_chained (h r))) =
             fst (cascade (insert r L) h (ctx_chained (h r)))"
        using ih cl kids by (rule mp [OF mp])
      then have "alike p h g \<longrightarrow> \<not> ctx_cancelled (h p) \<longrightarrow>
             fst (cascade (insert r L) g (ctx_chained (h r))) =
             fst (cascade (insert r L) h (ctx_chained (h r)))"
        by (rule spec)
      then have k: "fst (cascade (insert r L) g (ctx_chained (h r))) =
             fst (cascade (insert r L) h (ctx_chained (h r)))"
        using al np by (rule mp [OF mp])
      have fh: "fst (mark_cancelled_locked L h r) =
          (case fst (cascade (insert r L) h (ctx_chained (h r))) of
             Returned u \<Rightarrow> Returned True | Blocked \<Rightarrow> Blocked)"
        using a by (simp add: mc_fst eh)
      have fg: "fst (mark_cancelled_locked L g r) =
          (case fst (cascade (insert r L) g (ctx_chained (h r))) of
             Returned u \<Rightarrow> Returned True | Blocked \<Rightarrow> Blocked)"
        using a fc by (simp add: mc_fst eg) (simp add: gr)
      show ?thesis unfolding fh fg k ..
    qed
  qed
next
  case (nil L h)
  show ?case by simp
next
  case (cons L h c cs)
  show ?case
  proof (intro impI allI)
    fix g
    assume cl: "closed_but {} h" and st: "\<forall>x\<in>set (c # cs). settled h x"
      and al: "alike p h g" and np: "\<not> ctx_cancelled (h p)"
    have sc: "settled h c" and ss: "\<forall>x\<in>set cs. settled h x" using st by simp_all
    have clg: "closed_but {} g" using cl al np by (rule alike_closed)
    have sgc: "settled g c" using sc alike_settled [OF al] by simp
    have sh: "snd (mark_cancelled_locked L h c) = h"
      using closed_unchanged(1) [of h c L] cl sc by (rule mp [OF mp])
    have sg: "snd (mark_cancelled_locked L g c) = g"
      using closed_unchanged(1) [of g c L] clg sgc by (rule mp [OF mp])
    have "\<forall>g. alike p h g \<longrightarrow> \<not> ctx_cancelled (h p) \<longrightarrow>
            fst (mark_cancelled_locked L g c) = fst (mark_cancelled_locked L h c)"
      using cons(1) cl sc by (rule mp [OF mp])
    then have "alike p h g \<longrightarrow> \<not> ctx_cancelled (h p) \<longrightarrow>
            fst (mark_cancelled_locked L g c) = fst (mark_cancelled_locked L h c)"
      by (rule spec)
    then have f: "fst (mark_cancelled_locked L g c) = fst (mark_cancelled_locked L h c)"
      using al np by (rule mp [OF mp])
    show "fst (cascade L g (c # cs)) = fst (cascade L h (c # cs))"
    proof (cases "fst (mark_cancelled_locked L h c)")
      case (Returned b)
      have ih: "closed_but {} h \<longrightarrow> (\<forall>c\<in>set cs. settled h c) \<longrightarrow>
          (\<forall>g. alike p h g \<longrightarrow> \<not> ctx_cancelled (h p) \<longrightarrow>
             fst (cascade L g cs) = fst (cascade L h cs))"
        using cons(2) [OF Returned] unfolding sh .
      have "\<forall>g. alike p h g \<longrightarrow> \<not> ctx_cancelled (h p) \<longrightarrow>
             fst (cascade L g cs) = fst (cascade L h cs)"
        using ih cl ss by (rule mp [OF mp])
      then have "alike p h g \<longrightarrow> \<not> ctx_cancelled (h p) \<longrightarrow>
             fst (cascade L g cs) = fst (cascade L h cs)"
        by (rule spec)
      then have k: "fst (cascade L g cs) = fst (cascade L h cs)"
        using al np by (rule mp [OF mp])
      have fg: "fst (mark_cancelled_locked L g c) = Returned b" using f Returned by simp
      show ?thesis
        unfolding cascade_fst [of L g] cascade_fst [of L h] fg Returned sh sg
        using k by simp
    next
      case Blocked
      have fg: "fst (mark_cancelled_locked L g c) = Blocked" using f Blocked by simp
      show ?thesis
        unfolding cascade_fst [of L g] cascade_fst [of L h] fg Blocked by simp
    qed
  qed
qed

lemma mc_steady:
  assumes "steady h" and "fst (mark_cancelled_locked L h r) \<noteq> Blocked"
  shows "steady (snd (mark_cancelled_locked L h r))"
proof -
  have cl: "closed_but {} h" and ca: "calm h" using assms(1) by (simp_all add: steady_def)
  have "closed_but {} (snd (mark_cancelled_locked L h r))"
    using closed_kept(1) [of h L r, THEN spec, of "{}"] cl assms(2) by (rule mp [OF mp])
  moreover have "calm (snd (mark_cancelled_locked L h r))"
    using calm_kept(1) [of h L r] ca assms(2) by (rule mp [OF mp])
  ultimately show ?thesis by (simp add: steady_def)
qed

lemma mark_completed_steady:
  assumes "steady h"
  shows "steady (snd (mark_completed h r))"
proof (cases "ctx_cancelled (h r)")
  case True
  then show ?thesis using assms by (simp add: mark_completed_def)
next
  case False
  let ?g = "h(r := (h r)\<lparr>ctx_completed := True\<rparr>)"
  have cl: "closed_but {} h" and ca: "calm h" using assms by (simp_all add: steady_def)
  have e: "snd (mark_completed h r) = ?g" using False by (simp add: mark_completed_def)
  have sg: "\<And>c. settled h c \<Longrightarrow> settled ?g c" by (simp add: settled_def)
  have cg: "\<And>x. ctx_cancelled (?g x) \<Longrightarrow> ctx_cancelled (h x)" by (simp split: if_splits)
  have ch: "\<And>x. ctx_chained (?g x) = ctx_chained (h x)" by simp
  have "closed_but {} ?g"
    unfolding closed_but_def
  proof (intro allI impI ballI)
    fix x c
    assume x: "ctx_cancelled (?g x)" and c: "c \<in> set (ctx_chained (?g x))"
    have hx: "ctx_cancelled (h x)" using x by (rule cg)
    have "c \<in> set (ctx_chained (h x))" using c unfolding ch .
    then have "settled h c" using closed_children [OF cl hx] by simp
    then show "settled ?g c" by (rule sg)
  qed
  moreover have "calm ?g"
  proof (rule calm_pruned [OF ca])
    show "prunes h ?g" by (simp add: prunes_def)
    show "\<forall>x. ctx_cancelled (?g x) \<longrightarrow> ctx_cancelled (h x)" using cg by blast
  qed
  ultimately show ?thesis unfolding e by (simp add: steady_def)
qed

lemma append_steady:
  assumes "steady h" and "\<not> ctx_cancelled (h p)"
  shows "steady (h(p := (h p)\<lparr>ctx_chained := ctx_chained (h p) @ [c]\<rparr>))"
proof -
  let ?g = "h(p := (h p)\<lparr>ctx_chained := ctx_chained (h p) @ [c]\<rparr>)"
  have cl: "closed_but {} h" and ca: "calm h" using assms(1) by (simp_all add: steady_def)
  have al: "alike p h ?g" by (simp add: alike_def)
  have "closed_but {} ?g" using cl al assms(2) by (rule alike_closed)
  moreover have "calm ?g"
    unfolding calm_def
  proof (intro allI impI)
    fix x
    assume "ctx_cancelled (?g x)"
    then have hx: "ctx_cancelled (h x)" using alike_flags(1) [OF al, of x] by simp
    then have sx: "settled h x" by (simp add: settled_def)
    have "\<forall>g. alike p h g \<longrightarrow> \<not> ctx_cancelled (h p) \<longrightarrow>
            fst (mark_cancelled_locked {} g x) = fst (mark_cancelled_locked {} h x)"
      using appended_same(1) [of h x p "{}"] cl sx by (rule mp [OF mp])
    then have "alike p h ?g \<longrightarrow> \<not> ctx_cancelled (h p) \<longrightarrow>
            fst (mark_cancelled_locked {} ?g x) = fst (mark_cancelled_locked {} h x)"
      by (rule spec)
    then have "fst (mark_cancelled_locked {} ?g x) = fst (mark_cancelled_locked {} h x)"
      using al assms(2) by (rule mp [OF mp])
    moreover have "fst (mark_cancelled_locked {} h x) \<noteq> Blocked"
      using ca hx by (simp add: calm_def)
    ultimately show "fst (mark_cancelled_locked {} ?g x) \<noteq> Blocked" by simp
  qed
  ultimately show ?thesis by (simp add: steady_def)
qed

lemma fst_chain:
  "fst (chain h p c) =
     (if ctx_cancelled (h p) then
        (case fst (mark_cancelled_locked {p} h c) of
           Returned b \<Rightarrow> Returned () | Blocked \<Rightarrow> Blocked)
      else Returned ())"
  by (simp add: chain_def split: prod.splits outcome.splits)

lemma chain_steady:
  assumes "steady h" and "fst (chain h p c) \<noteq> Blocked"
  shows "steady (snd (chain h p c))"
proof (cases "ctx_cancelled (h p)")
  case True
  then have "fst (mark_cancelled_locked {p} h c) \<noteq> Blocked"
    using assms(2) by (auto simp: fst_chain)
  then have "steady (snd (mark_cancelled_locked {p} h c))"
    using assms(1) by (rule mc_steady [rotated])
  then show ?thesis using True by (simp add: snd_chain)
next
  case False
  have e: "snd (chain h p c) = h(p := (h p)\<lparr>ctx_chained := ctx_chained (h p) @ [c]\<rparr>)"
    using False by (simp add: snd_chain)
  show ?thesis unfolding e using assms(1) False by (rule append_steady)
qed

lemma fst_step:
  "fst (step h x) =
     (case x of
        MarkCancelled r \<Rightarrow>
          (case fst (mark_cancelled h r) of Returned b \<Rightarrow> Returned () | Blocked \<Rightarrow> Blocked)
      | MarkCompleted r \<Rightarrow> Returned ()
      | Cancel r \<Rightarrow>
          (case fst (mark_cancelled h r) of Returned b \<Rightarrow> Returned () | Blocked \<Rightarrow> Blocked)
      | Chain r c \<Rightarrow> fst (chain h r c))"
  by (cases x) (simp_all add: cancel_def split: prod.splits outcome.splits)

lemma step_steady:
  assumes "steady h" and "fst (step h x) \<noteq> Blocked"
  shows "steady (snd (step h x))"
proof (cases x)
  case (MarkCancelled r)
  then have "fst (mark_cancelled_locked {} h r) \<noteq> Blocked"
    using assms(2) by (auto simp: fst_step mark_cancelled_def simp del: step.simps)
  then have "steady (snd (mark_cancelled_locked {} h r))"
    using assms(1) by (rule mc_steady [rotated])
  then show ?thesis using MarkCancelled by (simp add: snd_step mark_cancelled_def del: step.simps)
next
  case (MarkCompleted r)
  then show ?thesis
    using mark_completed_steady [OF assms(1), of r] by (simp add: snd_step del: step.simps)
next
  case (Cancel r)
  then have "fst (mark_cancelled_locked {} h r) \<noteq> Blocked"
    using assms(2) by (auto simp: fst_step mark_cancelled_def simp del: step.simps)
  then have "steady (snd (mark_cancelled_locked {} h r))"
    using assms(1) by (rule mc_steady [rotated])
  then show ?thesis using Cancel by (simp add: snd_step mark_cancelled_def del: step.simps)
next
  case (Chain r c)
  then have "fst (chain h r c) \<noteq> Blocked"
    using assms(2) by (simp add: fst_step del: step.simps)
  then have "steady (snd (chain h r c))" using assms(1) by (rule chain_steady [rotated])
  then show ?thesis using Chain by (simp add: snd_step del: step.simps)
qed

lemma fst_run_Cons:
  "fst (run h (x # xs)) =
     (case fst (step h x) of Returned u \<Rightarrow> fst (run (snd (step h x)) xs)
      | Blocked \<Rightarrow> Blocked)"
  by (simp del: step.simps split: prod.splits outcome.splits)

lemma run_steady:
  "steady h \<Longrightarrow> fst (run h xs) \<noteq> Blocked \<Longrightarrow> steady (snd (run h xs))"
proof (induction xs arbitrary: h)
  case Nil
  then show ?case by simp
next
  case (Cons x xs)
  obtain u where u: "fst (step h x) = Returned u"
    using Cons.prems(2) by (cases "fst (step h x)")
      (auto simp: fst_run_Cons simp del: run.simps step.simps)
  then have nb: "fst (step h x) \<noteq> Blocked" by simp
  have nb': "fst (run (snd (step h x)) xs) \<noteq> Blocked"
    using Cons.prems(2) u by (simp add: fst_run_Cons del: run.simps step.simps)
  have "steady (snd (step h x))" using Cons.prems(1) nb by (rule step_steady)
  then have "steady (snd (run (snd (step h x)) xs))" using nb' by (rule Cons.IH)
  then show ?case using u by (simp add: snd_run_Cons del: run.simps step.simps)
qed

lemma steady_start:
  assumes "\<forall>x. \<not> cancelled h x \<and> \<not> completed h x"
  shows "steady h"
  using assms by (simp add: steady_def closed_but_def calm_def cancelled_def)

lemma steady_again:
  assumes "steady h" and "ctx_cancelled (h r)" and "\<not> ctx_completed (h r)"
  shows "mark_cancelled h r = (Returned True, h)"
proof -
  have cl: "closed_but {} h" and ca: "calm h" using assms(1) by (simp_all add: steady_def)
  have nb: "fst (mark_cancelled_locked {} h r) \<noteq> Blocked"
    using ca assms(2) by (simp add: calm_def)
  have f: "fst (mark_cancelled_locked {} h r) = Returned True"
    using mc_returned_value [OF nb] assms(3) by simp
  have st: "settled h r" using assms(2) by (simp add: settled_def)
  have s: "snd (mark_cancelled_locked {} h r) = h"
    using closed_unchanged(1) [of h r "{}"] cl st by (rule mp [OF mp])
  show ?thesis
    unfolding mark_cancelled_def using f s by (metis prod.collapse)
qed

lemma same_shape_grows:
  assumes "grows h h'" and "same_shape h g"
  shows "same_shape h' g"
  using assms(2) grows_chained [OF assms(1)] grows_ctx_completed [OF assms(1)]
  by (simp add: same_shape_def)

lemma grows_same_shape:
  assumes "grows h h'"
  shows "same_shape h h'"
  using grows_chained [OF assms] grows_ctx_completed [OF assms] by (simp add: same_shape_def)

lemma marked_again:
  "fst (mark_cancelled_locked L h r) \<noteq> Blocked \<longrightarrow>
     (\<forall>g. same_shape h g \<longrightarrow>
          (\<forall>x. ctx_cancelled (snd (mark_cancelled_locked L h r) x) \<longrightarrow> ctx_cancelled (g x)) \<longrightarrow>
          fst (mark_cancelled_locked L g r) = fst (mark_cancelled_locked L h r) \<and>
          snd (mark_cancelled_locked L g r) = g)"
  "fst (cascade L h cs) \<noteq> Blocked \<longrightarrow>
     (\<forall>g. same_shape h g \<longrightarrow>
          (\<forall>x. ctx_cancelled (snd (cascade L h cs) x) \<longrightarrow> ctx_cancelled (g x)) \<longrightarrow>
          fst (cascade L g cs) = fst (cascade L h cs) \<and> snd (cascade L g cs) = g)"
proof (induction L h r and L h cs rule: mc_induct)
  case (mark L h r)
  show ?case
  proof (intro impI allI)
    fix g
    assume nb: "fst (mark_cancelled_locked L h r) \<noteq> Blocked"
      and sh: "same_shape h g"
      and dom: "\<forall>x. ctx_cancelled (snd (mark_cancelled_locked L h r) x) \<longrightarrow> ctx_cancelled (g x)"
    have r: "r \<notin> L" using nb by (rule mc_returned_not_locked)
    have fc: "ctx_completed (g r) = ctx_completed (h r)"
      and ch: "ctx_chained (g r) = ctx_chained (h r)" using sh by (simp_all add: same_shape_def)
    show "fst (mark_cancelled_locked L g r) = fst (mark_cancelled_locked L h r) \<and>
          snd (mark_cancelled_locked L g r) = g"
    proof (cases "ctx_completed (h r)")
      case True
      then show ?thesis using r fc by (simp add: mc_fst mc_snd)
    next
      case False
      let ?h1 = "h(r := (h r)\<lparr>ctx_cancelled := True\<rparr>)"
      let ?h2 = "snd (cascade (insert r L) ?h1 (ctx_chained (h r)))"
      have e: "snd (mark_cancelled_locked L h r) = ?h2" using r False by (simp add: mc_snd)
      have nb': "fst (cascade (insert r L) ?h1 (ctx_chained (h r))) \<noteq> Blocked"
        using nb r False by (auto simp: mc_fst split: outcome.splits)
      have g12: "grows ?h1 ?h2" by (rule mc_grows)
      have "ctx_cancelled (?h1 r)" by simp
      then have "ctx_cancelled (?h2 r)" by (rule grows_ctx_cancelled [OF g12])
      then have cg: "ctx_cancelled (g r)" using dom unfolding e by blast
      have eg: "g(r := (g r)\<lparr>ctx_cancelled := True\<rparr>) = g" using cg by (rule mark_again)
      have sh1: "same_shape ?h1 g" using sh by (simp add: same_shape_def)
      have dom1: "\<forall>x. ctx_cancelled (?h2 x) \<longrightarrow> ctx_cancelled (g x)" using dom unfolding e .
      have "\<forall>g. same_shape ?h1 g \<longrightarrow> (\<forall>x. ctx_cancelled (?h2 x) \<longrightarrow> ctx_cancelled (g x)) \<longrightarrow>
              fst (cascade (insert r L) g (ctx_chained (h r))) =
              fst (cascade (insert r L) ?h1 (ctx_chained (h r))) \<and>
              snd (cascade (insert r L) g (ctx_chained (h r))) = g"
        using mark [OF r False] nb' by (rule mp)
      then have "same_shape ?h1 g \<longrightarrow> (\<forall>x. ctx_cancelled (?h2 x) \<longrightarrow> ctx_cancelled (g x)) \<longrightarrow>
              fst (cascade (insert r L) g (ctx_chained (h r))) =
              fst (cascade (insert r L) ?h1 (ctx_chained (h r))) \<and>
              snd (cascade (insert r L) g (ctx_chained (h r))) = g"
        by (rule spec)
      then have k: "fst (cascade (insert r L) g (ctx_chained (h r))) =
              fst (cascade (insert r L) ?h1 (ctx_chained (h r))) \<and>
              snd (cascade (insert r L) g (ctx_chained (h r))) = g"
        using sh1 dom1 by (rule mp [OF mp])
      have fh: "fst (mark_cancelled_locked L h r) =
          (case fst (cascade (insert r L) ?h1 (ctx_chained (h r))) of
             Returned u \<Rightarrow> Returned True | Blocked \<Rightarrow> Blocked)"
        using r False by (simp add: mc_fst)
      have fg: "fst (mark_cancelled_locked L g r) =
          (case fst (cascade (insert r L) g (ctx_chained (h r))) of
             Returned u \<Rightarrow> Returned True | Blocked \<Rightarrow> Blocked)"
        using r False fc by (simp add: mc_fst eg ch)
      have sg: "snd (mark_cancelled_locked L g r) =
          snd (cascade (insert r L) g (ctx_chained (h r)))"
        using r False fc by (simp add: mc_snd eg ch)
      show ?thesis unfolding fh fg sg using k by simp
    qed
  qed
next
  case (nil L h)
  show ?case by simp
next
  case (cons L h c cs)
  show ?case
  proof (intro impI allI)
    fix g
    assume nb: "fst (cascade L h (c # cs)) \<noteq> Blocked"
      and sh: "same_shape h g"
      and dom: "\<forall>x. ctx_cancelled (snd (cascade L h (c # cs)) x) \<longrightarrow> ctx_cancelled (g x)"
    let ?ha = "snd (mark_cancelled_locked L h c)"
    let ?hb = "snd (cascade L ?ha cs)"
    obtain b where b: "fst (mark_cancelled_locked L h c) = Returned b"
      using nb by (cases "fst (mark_cancelled_locked L h c)")
        (auto simp: cascade_fst simp del: cascade.simps)
    then have nb': "fst (cascade L ?ha cs) \<noteq> Blocked"
      using nb by (simp add: cascade_fst del: cascade.simps)
    have nbc: "fst (mark_cancelled_locked L h c) \<noteq> Blocked" using b by simp
    have e: "snd (cascade L h (c # cs)) = ?hb"
      using b by (simp add: cascade_snd del: cascade.simps)
    have domb: "\<forall>x. ctx_cancelled (?hb x) \<longrightarrow> ctx_cancelled (g x)" using dom unfolding e .
    have gab: "grows ?ha ?hb" by (rule mc_grows)
    have doma: "\<forall>x. ctx_cancelled (?ha x) \<longrightarrow> ctx_cancelled (g x)"
      using domb grows_ctx_cancelled [OF gab] by blast
    have "\<forall>g. same_shape h g \<longrightarrow> (\<forall>x. ctx_cancelled (?ha x) \<longrightarrow> ctx_cancelled (g x)) \<longrightarrow>
            fst (mark_cancelled_locked L g c) = fst (mark_cancelled_locked L h c) \<and>
            snd (mark_cancelled_locked L g c) = g"
      using cons(1) nbc by (rule mp)
    then have "same_shape h g \<longrightarrow> (\<forall>x. ctx_cancelled (?ha x) \<longrightarrow> ctx_cancelled (g x)) \<longrightarrow>
            fst (mark_cancelled_locked L g c) = fst (mark_cancelled_locked L h c) \<and>
            snd (mark_cancelled_locked L g c) = g"
      by (rule spec)
    then have k1: "fst (mark_cancelled_locked L g c) = fst (mark_cancelled_locked L h c) \<and>
            snd (mark_cancelled_locked L g c) = g"
      using sh doma by (rule mp [OF mp])
    have sha: "same_shape ?ha g" using mc_grows(1) sh by (rule same_shape_grows)
    have "\<forall>g. same_shape ?ha g \<longrightarrow> (\<forall>x. ctx_cancelled (?hb x) \<longrightarrow> ctx_cancelled (g x)) \<longrightarrow>
            fst (cascade L g cs) = fst (cascade L ?ha cs) \<and> snd (cascade L g cs) = g"
      using cons(2) [OF b] nb' by (rule mp)
    then have "same_shape ?ha g \<longrightarrow> (\<forall>x. ctx_cancelled (?hb x) \<longrightarrow> ctx_cancelled (g x)) \<longrightarrow>
            fst (cascade L g cs) = fst (cascade L ?ha cs) \<and> snd (cascade L g cs) = g"
      by (rule spec)
    then have k2: "fst (cascade L g cs) = fst (cascade L ?ha cs) \<and> snd (cascade L g cs) = g"
      using sha domb by (rule mp [OF mp])
    have fg: "fst (mark_cancelled_locked L g c) = Returned b"
      and sg: "snd (mark_cancelled_locked L g c) = g" using k1 b by simp_all
    show "fst (cascade L g (c # cs)) = fst (cascade L h (c # cs)) \<and>
          snd (cascade L g (c # cs)) = g"
      unfolding cascade_fst [of L g] cascade_snd [of L g] cascade_fst [of L h] fg sg b
      using k2 by simp
  qed
qed

lemma mark_cancelled_twice:
  assumes "mark_cancelled h r = (Returned b, h')"
  shows "mark_cancelled h' r = (Returned b, h')"
proof -
  have f: "fst (mark_cancelled_locked {} h r) = Returned b"
    and s: "snd (mark_cancelled_locked {} h r) = h'"
    using assms by (simp_all add: mark_cancelled_def)
  have nb: "fst (mark_cancelled_locked {} h r) \<noteq> Blocked" using f by simp
  have g: "grows h h'" using mc_grows(1) [of h "{}" r] unfolding s .
  have sh: "same_shape h h'" using g by (rule grows_same_shape)
  have dom: "\<forall>x. ctx_cancelled (snd (mark_cancelled_locked {} h r) x) \<longrightarrow> ctx_cancelled (h' x)"
    unfolding s by simp
  have "\<forall>g. same_shape h g \<longrightarrow>
          (\<forall>x. ctx_cancelled (snd (mark_cancelled_locked {} h r) x) \<longrightarrow> ctx_cancelled (g x)) \<longrightarrow>
          fst (mark_cancelled_locked {} g r) = fst (mark_cancelled_locked {} h r) \<and>
          snd (mark_cancelled_locked {} g r) = g"
    using marked_again(1) [of "{}" h r] nb by (rule mp)
  then have "same_shape h h' \<longrightarrow>
          (\<forall>x. ctx_cancelled (snd (mark_cancelled_locked {} h r) x) \<longrightarrow> ctx_cancelled (h' x)) \<longrightarrow>
          fst (mark_cancelled_locked {} h' r) = fst (mark_cancelled_locked {} h r) \<and>
          snd (mark_cancelled_locked {} h' r) = h'"
    by (rule spec)
  then have "fst (mark_cancelled_locked {} h' r) = fst (mark_cancelled_locked {} h r) \<and>
          snd (mark_cancelled_locked {} h' r) = h'"
    using sh dom by (rule mp [OF mp])
  then show ?thesis unfolding mark_cancelled_def using f by (metis prod.collapse)
qed

text \<open>
  Claim C9. A second \<^verbatim>\<open>mark_completed()\<close> right after a successful one returns true
  again and leaves the store as it is, and a second \<^verbatim>\<open>mark_cancelled()\<close> right after
  one that returned gives the same result and leaves the store as it is, in every
  store. At any later time: start from a store in which no context is cancelled or
  completed and run any sequence of calls that all return; then
  \<^verbatim>\<open>mark_completed()\<close> on a completed context returns true, \<^verbatim>\<open>mark_cancelled()\<close> on a
  cancelled context (which is not completed) returns true, and either call leaves
  the whole store unchanged, chained children included.
\<close>

theorem terminal_idempotence:
  "(mark_completed h r = (True, h') \<longrightarrow> mark_completed h' r = (True, h')) \<and>
   (mark_cancelled s c = (Returned b, s') \<longrightarrow> mark_cancelled s' c = (Returned b, s')) \<and>
   ((\<forall>x. \<not> cancelled g x \<and> \<not> completed g x) \<and> run g ops = (Returned (), k) \<longrightarrow>
      (completed k t \<longrightarrow> \<not> cancelled k t \<and> mark_completed k t = (True, k)) \<and>
      (cancelled k t \<longrightarrow> \<not> completed k t \<and> mark_cancelled k t = (Returned True, k)))"
proof (intro conjI impI)
  assume a: "mark_completed h r = (True, h')"
  then have n: "\<not> ctx_cancelled (h r)" by (auto simp: mark_completed_def split: if_splits)
  then have e: "h' = h(r := (h r)\<lparr>ctx_completed := True\<rparr>)"
    using a by (simp add: mark_completed_def)
  show "mark_completed h' r = (True, h')"
    unfolding e using n by (simp add: mark_completed_def)
next
  assume "mark_cancelled s c = (Returned b, s')"
  then show "mark_cancelled s' c = (Returned b, s')" by (rule mark_cancelled_twice)
next
  assume a: "(\<forall>x. \<not> cancelled g x \<and> \<not> completed g x) \<and> run g ops = (Returned (), k)"
  then have fr: "\<forall>x. \<not> cancelled g x \<and> \<not> completed g x"
    and ru: "run g ops = (Returned (), k)" by simp_all
  have k: "snd (run g ops) = k" and nb: "fst (run g ops) \<noteq> Blocked" using ru by simp_all
  have "excl g" using fr by (simp add: excl_def)
  then have "excl (snd (run g ops))" by (rule run_excl)
  then have ex: "excl k" unfolding k .
  have "steady (snd (run g ops))" using steady_start [OF fr] nb by (rule run_steady)
  then have sk: "steady k" unfolding k .
  {
    assume d: "completed k t"
    then show "\<not> cancelled k t" using ex by (auto simp: excl_def)
    then have "\<not> ctx_cancelled (k t)" by (simp add: cancelled_def)
    moreover have "k(t := (k t)\<lparr>ctx_completed := True\<rparr>) = k"
      using d by (intro ext) (simp add: completed_def)
    ultimately show "mark_completed k t = (True, k)" by (simp add: mark_completed_def)
  }
  {
    assume d: "cancelled k t"
    then show n: "\<not> completed k t" using ex by (auto simp: excl_def)
    show "mark_cancelled k t = (Returned True, k)"
      using sk d n by (intro steady_again) (simp_all add: cancelled_def completed_def)
  }
qed

theorem terminal_idempotence_witness:
  "mark_completed fresh T4 = (True, fresh(T4 := (fresh T4)\<lparr>ctx_completed := True\<rparr>)) \<and>
   mark_completed (fresh(T4 := (fresh T4)\<lparr>ctx_completed := True\<rparr>)) T4 =
     (True, fresh(T4 := (fresh T4)\<lparr>ctx_completed := True\<rparr>)) \<and>
   mark_cancelled tree T1 = (Returned True, snd (mark_cancelled tree T1)) \<and>
   mark_cancelled (snd (mark_cancelled tree T1)) T1 =
     (Returned True, snd (mark_cancelled tree T1)) \<and>
   cancelled (snd (mark_cancelled tree T1)) T3 \<and>
   (\<forall>x. \<not> cancelled fresh x \<and> \<not> completed fresh x) \<and>
   run fresh [Chain T1 T2, Chain T2 T3, MarkCompleted T3, MarkCancelled T1] =
     (Returned (), line) \<and>
   completed line T3 \<and> mark_completed line T3 = (True, line) \<and>
   cancelled line T2 \<and> mark_cancelled line T2 = (Returned True, line)"
proof -
  have a: "mark_completed fresh T4 = (True, fresh(T4 := (fresh T4)\<lparr>ctx_completed := True\<rparr>))"
    by (simp add: mark_completed_def fresh_def CancelContext_init_def)
  have b: "fst (mark_cancelled tree T1) = Returned True"
    by (simp add: tree_def fresh_def CancelContext_init_def chain_def mark_cancelled_def
        mark_cancelled_locked.simps)
  have b': "mark_cancelled tree T1 = (Returned True, snd (mark_cancelled tree T1))"
    using b by (metis prod.collapse)
  have c: "cancelled (snd (mark_cancelled tree T1)) T3"
    by (simp add: tree_def fresh_def CancelContext_init_def chain_def mark_cancelled_def
        mark_cancelled_locked.simps cancelled_def)
  have f: "\<forall>x. \<not> cancelled fresh x \<and> \<not> completed fresh x"
    by (simp add: fresh_def cancelled_def completed_def CancelContext_init_def)
  have "fst (run fresh [Chain T1 T2, Chain T2 T3, MarkCompleted T3, MarkCancelled T1]) =
      Returned ()"
    by (simp add: fresh_def CancelContext_init_def chain_def mark_completed_def
        mark_cancelled_def mark_cancelled_locked.simps)
  then have r: "run fresh [Chain T1 T2, Chain T2 T3, MarkCompleted T3, MarkCancelled T1] =
      (Returned (), line)"
    unfolding line_def by (metis prod.collapse)
  have d: "completed line T3"
    by (simp add: line_def fresh_def completed_def CancelContext_init_def chain_def
        mark_completed_def mark_cancelled_def mark_cancelled_locked.simps)
  have e: "cancelled line T2"
    by (simp add: line_def fresh_def cancelled_def CancelContext_init_def chain_def
        mark_completed_def mark_cancelled_def mark_cancelled_locked.simps)
  have fr: "(\<forall>x. \<not> cancelled fresh x \<and> \<not> completed fresh x) \<and>
      run fresh [Chain T1 T2, Chain T2 T3, MarkCompleted T3, MarkCancelled T1] =
        (Returned (), line)"
    using f r by (rule conjI)
  note t1 = terminal_idempotence [where h = fresh and r = T4
      and h' = "fresh(T4 := (fresh T4)\<lparr>ctx_completed := True\<rparr>)"
      and s = tree and c = T1 and b = True and s' = "snd (mark_cancelled tree T1)"
      and g = fresh and ops = "[Chain T1 T2, Chain T2 T3, MarkCompleted T3, MarkCancelled T1]"
      and k = line and t = T3]
  note t2 = terminal_idempotence [where h = fresh and r = T4
      and h' = "fresh(T4 := (fresh T4)\<lparr>ctx_completed := True\<rparr>)"
      and s = tree and c = T1 and b = True and s' = "snd (mark_cancelled tree T1)"
      and g = fresh and ops = "[Chain T1 T2, Chain T2 T3, MarkCompleted T3, MarkCancelled T1]"
      and k = line and t = T2]
  have a2: "mark_completed (fresh(T4 := (fresh T4)\<lparr>ctx_completed := True\<rparr>)) T4 =
     (True, fresh(T4 := (fresh T4)\<lparr>ctx_completed := True\<rparr>))"
    using t1 a by blast
  have b2: "mark_cancelled (snd (mark_cancelled tree T1)) T1 =
     (Returned True, snd (mark_cancelled tree T1))"
    using t1 b' by blast
  have d2: "mark_completed line T3 = (True, line)"
    using t1 fr d by blast
  have e2: "mark_cancelled line T2 = (Returned True, line)"
    using t2 fr e by blast
  show ?thesis
    using a a2 b' b2 c f r d d2 e e2 by blast
qed

end
